theory Spec2Isabelle
  imports Main "HOL-Library.AList"
begin

section \<open>JavaScript values, outcomes and strings\<close>

text \<open>
  The values that reach the engine as \<^verbatim>\<open>expect\<close> (declared \<^verbatim>\<open>any\<close>) and that a predicate
  returns: \<^verbatim>\<open>undefined\<close>, booleans, integral numbers (\<open>JNum n\<close> for an \<open>n\<close> that a JavaScript
  number holds exactly) and strings. A string is the UTF-8 encoding of its text, a list
  of bytes: the ASCII characters the engine looks for are single bytes, and a substring,
  a prefix or a suffix of the text is one of the bytes.
\<close>

datatype jsval = JUndefined | JBool bool | JNum int | JStr string

text \<open>\<^verbatim>\<open>Boolean(v)\<close>.\<close>

fun truthy :: "jsval \<Rightarrow> bool" where
  "truthy JUndefined = False"
| "truthy (JBool b) = b"
| "truthy (JNum n) = (n \<noteq> 0)"
| "truthy (JStr s) = (s \<noteq> [])"

text \<open>
  A call either returns a value or throws. What is thrown is an object with a message
  (an \<^verbatim>\<open>Error\<close>), represented by its \<^verbatim>\<open>message\<close>, or it is \<^verbatim>\<open>undefined\<close> (or \<^verbatim>\<open>null\<close>), as when a
  promise is rejected with no reason.
\<close>

datatype 'a outcome = Returns 'a | Throws string | ThrowsUndefined

text \<open>
  The catch blocks of the engine read \<^verbatim>\<open>error.message\<close>; of \<^verbatim>\<open>undefined\<close> that read throws a
  \<^verbatim>\<open>TypeError\<close>, with this message (for \<^verbatim>\<open>null\<close> the message names \<^verbatim>\<open>null\<close>).
\<close>

definition noMessage :: string where
  "noMessage = ''Cannot read properties of undefined (reading 'message')''"

definition startsWith :: "string \<Rightarrow> string \<Rightarrow> bool" where
  "startsWith s p = (take (length p) s = p)"

definition endsWith :: "string \<Rightarrow> string \<Rightarrow> bool" where
  "endsWith s p = (length p \<le> length s \<and> drop (length s - length p) s = p)"

text \<open>\<^verbatim>\<open>s.includes(sub)\<close>: \<open>sub\<close> occurs in \<open>s\<close> as a contiguous substring.\<close>

fun string_includes :: "string \<Rightarrow> string \<Rightarrow> bool" where
  "string_includes [] sub = (sub = [])"
| "string_includes (c # cs) sub = (startsWith (c # cs) sub \<or> string_includes cs sub)"

text \<open>
  The white space and line terminators of JavaScript, in UTF-8: the characters U+0009 to
  U+000D and U+0020, then U+00A0, U+1680, U+2000 to U+200A, U+2028, U+2029, U+202F,
  U+205F, U+3000 and U+FEFF.
\<close>

definition whiteSpace :: "string list" where
  "whiteSpace =
     [[CHR 0x09], [CHR 0x0A], [CHR 0x0B], [CHR 0x0C], [CHR 0x0D], [CHR 0x20],
      [CHR 0xC2, CHR 0xA0], [CHR 0xE1, CHR 0x9A, CHR 0x80],
      [CHR 0xE2, CHR 0x80, CHR 0x80], [CHR 0xE2, CHR 0x80, CHR 0x81],
      [CHR 0xE2, CHR 0x80, CHR 0x82], [CHR 0xE2, CHR 0x80, CHR 0x83],
      [CHR 0xE2, CHR 0x80, CHR 0x84], [CHR 0xE2, CHR 0x80, CHR 0x85],
      [CHR 0xE2, CHR 0x80, CHR 0x86], [CHR 0xE2, CHR 0x80, CHR 0x87],
      [CHR 0xE2, CHR 0x80, CHR 0x88], [CHR 0xE2, CHR 0x80, CHR 0x89],
      [CHR 0xE2, CHR 0x80, CHR 0x8A], [CHR 0xE2, CHR 0x80, CHR 0xA8],
      [CHR 0xE2, CHR 0x80, CHR 0xA9], [CHR 0xE2, CHR 0x80, CHR 0xAF],
      [CHR 0xE2, CHR 0x81, CHR 0x9F], [CHR 0xE3, CHR 0x80, CHR 0x80],
      [CHR 0xEF, CHR 0xBB, CHR 0xBF]]"

text \<open>Removing from the front of \<open>s\<close> every leading occurrence of one of the strings \<open>ws\<close>.\<close>

function strip :: "string list \<Rightarrow> string \<Rightarrow> string" where
  "strip ws s =
     (case find (\<lambda>w. w \<noteq> [] \<and> startsWith s w) ws of
        None \<Rightarrow> s
      | Some w \<Rightarrow> strip ws (drop (length w) s))"
  by pat_completeness auto
termination
proof (relation "measure (\<lambda>(ws, s). length s)")
  show "wf (measure (\<lambda>(ws, s). length s))" by simp
next
  fix ws s w
  assume "find (\<lambda>w. w \<noteq> [] \<and> startsWith s w) ws = Some w"
  then have "w \<noteq> []" and "startsWith s w" by (auto simp: find_Some_iff)
  then have "s \<noteq> []" by (auto simp: startsWith_def)
  with \<open>w \<noteq> []\<close> show "((ws, drop (length w) s), (ws, s)) \<in> measure (\<lambda>(ws, s). length s)"
    by simp
qed

declare strip.simps [simp del]

text \<open>\<^verbatim>\<open>s.trimStart()\<close>, \<^verbatim>\<open>s.trimEnd()\<close> and \<^verbatim>\<open>s.trim()\<close>.\<close>

definition trimStart :: "string \<Rightarrow> string" where
  "trimStart s = strip whiteSpace s"

definition trimEnd :: "string \<Rightarrow> string" where
  "trimEnd s = rev (strip (map rev whiteSpace) (rev s))"

definition trim :: "string \<Rightarrow> string" where
  "trim s = trimEnd (trimStart s)"

text \<open>The value of a digit character in radixes up to 16.\<close>

definition digitValue :: "char \<Rightarrow> nat option" where
  "digitValue c =
     (if c \<in> set ''0123456789'' then Some (of_char c - 48)
      else if c \<in> set ''abcdef'' then Some (of_char c - 87)
      else if c \<in> set ''ABCDEF'' then Some (of_char c - 55)
      else None)"

definition isRadixDigit :: "nat \<Rightarrow> char \<Rightarrow> bool" where
  "isRadixDigit radix c = (case digitValue c of None \<Rightarrow> False | Some d \<Rightarrow> d < radix)"

definition digitsValue :: "nat \<Rightarrow> string \<Rightarrow> int" where
  "digitsValue radix ds =
     foldl (\<lambda>acc c. acc * int radix + int (case digitValue c of None \<Rightarrow> 0 | Some d \<Rightarrow> d)) 0 ds"

text \<open>
  The numbers that \<^verbatim>\<open>parseInt\<close> returns: \<^verbatim>\<open>NaN\<close>, the two infinities, and the doubles whose
  value is an integer (the two zeros are not told apart: they compare alike).
\<close>

datatype number = NaN | Finite int | PosInfinity | NegInfinity

text \<open>
  The double nearest to a natural number, ties to the even significand. A double has a
  significand of 53 bits: \<open>ulp n\<close> is the number of low bits of \<open>n\<close> that do not fit, and
  numbers below \<open>2^53\<close> are kept as they are.
\<close>

function ulp :: "nat \<Rightarrow> nat" where
  "ulp n = (if n < 9007199254740992 then 0 else Suc (ulp (n div 2)))"
  by pat_completeness auto
termination
  by (relation "measure id") auto

declare ulp.simps [simp del]

definition roundNat :: "nat \<Rightarrow> nat" where
  "roundNat n =
     (let e = ulp n; q = n div 2 ^ e; r = n mod 2 ^ e
      in if 2 * r > 2 ^ e \<or> (2 * r = 2 ^ e \<and> odd q) then (q + 1) * 2 ^ e else q * 2 ^ e)"

text \<open>
  The number for a mathematical integer: rounded to the nearest double, and infinite
  from \<open>2^1024\<close> on after rounding.
\<close>

definition toNumber :: "int \<Rightarrow> number" where
  "toNumber i =
     (let m = roundNat (nat \<bar>i\<bar>)
      in if m \<ge> 2 ^ 1024 then (if i < 0 then NegInfinity else PosInfinity)
         else Finite (if i < 0 then - int m else int m))"

text \<open>\<^verbatim>\<open>a < b\<close>, \<^verbatim>\<open>a > b\<close> and \<^verbatim>\<open>a === b\<close> on numbers: every comparison with \<^verbatim>\<open>NaN\<close> is false.\<close>

fun number_less :: "number \<Rightarrow> number \<Rightarrow> bool" where
  "number_less (Finite x) (Finite y) = (x < y)"
| "number_less (Finite x) PosInfinity = True"
| "number_less NegInfinity (Finite y) = True"
| "number_less NegInfinity PosInfinity = True"
| "number_less a b = False"

definition number_greater :: "number \<Rightarrow> number \<Rightarrow> bool" where
  "number_greater a b = number_less b a"

fun number_equal :: "number \<Rightarrow> number \<Rightarrow> bool" where
  "number_equal (Finite x) (Finite y) = (x = y)"
| "number_equal PosInfinity PosInfinity = True"
| "number_equal NegInfinity NegInfinity = True"
| "number_equal a b = False"

text \<open>
  \<^verbatim>\<open>parseInt(s)\<close> with no radix argument: leading white space is skipped, a sign is read,
  a \<^verbatim>\<open>0x\<close>/\<^verbatim>\<open>0X\<close> prefix selects radix 16, and the longest prefix of digits is converted to
  the number for the integer it denotes; with no digit the result is \<^verbatim>\<open>NaN\<close>.
\<close>

definition parseInt :: "string \<Rightarrow> number" where
  "parseInt s =
     (let s1 = trimStart s;
          sign = (if startsWith s1 ''-'' then - 1 else (1::int));
          s2 = (if startsWith s1 ''-'' \<or> startsWith s1 ''+'' then drop 1 s1 else s1);
          hex = (startsWith s2 ''0x'' \<or> startsWith s2 ''0X'');
          radix = (if hex then 16 else (10::nat));
          s3 = (if hex then drop 2 s2 else s2);
          ds = takeWhile (isRadixDigit radix) s3
      in if ds = [] then NaN else toNumber (sign * digitsValue radix ds))"

section \<open>Verification results\<close>

text \<open>
  \<^verbatim>\<open>VerificationResult\<close> of \<^verbatim>\<open>types.ts\<close>. The \<^verbatim>\<open>timestamp\<close> field, like every other
  wall-clock reading of the engine (start and end times, durations), is left out:
  it is a reading of real time and nothing below depends on it.
\<close>

record VerificationResult =
  success :: bool
  message :: string
  actual :: jsval
  expected :: jsval
  evidence :: "string list option"

text \<open>\<^verbatim>\<open>BaseVerifier.createResult\<close>.\<close>

definition createResult :: "bool \<Rightarrow> string \<Rightarrow> jsval \<Rightarrow> jsval \<Rightarrow> VerificationResult" where
  "createResult s m a e =
     \<lparr>success = s, message = m, actual = a, expected = e, evidence = Some []\<rparr>"

section \<open>The host\<close>

text \<open>
  What the engine calls and does not define: \<^verbatim>\<open>execSync\<close> of \<^verbatim>\<open>child_process\<close>, which runs a
  command text with a working directory and environment overrides in the world \<open>'w\<close>,
  returns the standard output (decoded as UTF-8) or throws, and may change the world; and
  the regular expression engine, \<^verbatim>\<open>new RegExp(source).test(output)\<close>, which throws on a
  malformed source.
\<close>

record 'w host =
  execSync :: "string \<Rightarrow> string option \<Rightarrow> (string \<times> string) list option \<Rightarrow> 'w \<Rightarrow> string outcome \<times> 'w"
  RegExp_test :: "string \<Rightarrow> string \<Rightarrow> bool outcome"

section \<open>The Expectation Matcher\<close>

text \<open>\<^verbatim>\<open>expected.match(/^[<>=]\d+$/)\<close>.\<close>

definition isDigit :: "char \<Rightarrow> bool" where
  "isDigit c = (c \<in> set ''0123456789'')"

definition matchesComparator :: "string \<Rightarrow> bool" where
  "matchesComparator e =
     (case e of [] \<Rightarrow> False
      | c # ds \<Rightarrow> c \<in> set ''<>='' \<and> ds \<noteq> [] \<and> list_all isDigit ds)"

text \<open>The \<^verbatim>\<open>switch\<close> on the operator.\<close>

definition numCompare :: "char \<Rightarrow> number \<Rightarrow> number \<Rightarrow> bool" where
  "numCompare operator a b =
     (if operator = CHR ''>'' then number_greater a b
      else if operator = CHR ''<'' then number_less a b
      else if operator = CHR ''='' then number_equal a b
      else False)"

text \<open>
  \<^verbatim>\<open>CommandVerifier.checkExpectation\<close>; the result is the \<^verbatim>\<open>matches\<close> field, or the error
  thrown by the construction of the regular expression.
\<close>

definition checkExpectation :: "'w host \<Rightarrow> string \<Rightarrow> string \<Rightarrow> bool outcome" where
  "checkExpectation h output e =
     (if startsWith e ''/'' \<and> endsWith e ''/'' then
        RegExp_test h (butlast (drop 1 e)) output
      else if matchesComparator e then
        (let operator = hd e;
             expectedNum = parseInt (drop 1 e);
             actualNum = parseInt output
         in if actualNum = NaN then Returns False
            else Returns (numCompare operator actualNum expectedNum))
      else if e = ''true'' \<or> e = ''false'' then
        (let expectBool = (e = ''true'');
             actualBool = (output = ''true'' \<or> output = ''1'' \<or> output = ''yes'')
         in Returns (expectBool = actualBool))
      else if e = ''exit 0'' \<or> e = ''success'' then Returns True
      else if startsWith e ''contains:'' then Returns (string_includes output (drop 9 e))
      else Returns (string_includes output e))"

section \<open>Verification backends\<close>

text \<open>\<^verbatim>\<open>VerificationCommand\<close>; its \<^verbatim>\<open>type\<close> tag is always \<^verbatim>\<open>'command'\<close>.\<close>

record VerificationCommand =
  command :: string
  cwd :: "string option"
  env :: "(string \<times> string) list option"

text \<open>
  \<^verbatim>\<open>VerificationFunction\<close>: a zero-argument predicate, awaited. It reads and may change
  the world, and returns a value or throws.
\<close>

type_synonym 'w VerificationFunction = "'w \<Rightarrow> jsval outcome \<times> 'w"

text \<open>
  The catch block of \<^verbatim>\<open>CommandVerifier.verify\<close>, entered with what was thrown in the try
  block: the message of an error, or nothing for \<^verbatim>\<open>undefined\<close>. Both of its branches read
  \<^verbatim>\<open>error.message\<close>.
\<close>

definition commandCatch :: "string option \<Rightarrow> jsval \<Rightarrow> VerificationResult outcome" where
  "commandCatch err e =
     (case err of
        None \<Rightarrow> Throws noMessage
      | Some msg \<Rightarrow>
          Returns (if e = JStr ''fails'' \<or> e = JStr ''error''
                   then createResult True ''Command failed as expected'' (JStr msg) e
                   else createResult False (''Command failed: '' @ msg) (JStr msg) e))"

text \<open>
  \<^verbatim>\<open>CommandVerifier.verify\<close> on a command object: the result it resolves to, or the error
  it rejects with when its catch block throws. An expected value that is not a string
  makes \<^verbatim>\<open>expected.startsWith\<close> throw a \<^verbatim>\<open>TypeError\<close> inside the try block.
\<close>

definition CommandVerifier_verify ::
  "'w host \<Rightarrow> VerificationCommand \<Rightarrow> jsval \<Rightarrow> 'w \<Rightarrow> VerificationResult outcome \<times> 'w" where
  "CommandVerifier_verify h c e w =
     (case execSync h (command c) (cwd c) (env c) w of
        (Throws msg, w') \<Rightarrow> (commandCatch (Some msg) e, w')
      | (ThrowsUndefined, w') \<Rightarrow> (commandCatch None e, w')
      | (Returns out, w') \<Rightarrow>
          (let output = trim out in
           case e of
             JUndefined \<Rightarrow>
               (Returns (createResult True ''Command executed successfully'' (JStr output)
                           JUndefined), w')
           | JStr s \<Rightarrow>
               (case checkExpectation h output s of
                  Returns matches \<Rightarrow>
                    (Returns (createResult matches
                                (if matches then ''Output matches expectation''
                                 else ''Output does not match'')
                                (JStr output) e), w')
                | Throws msg \<Rightarrow> (commandCatch (Some msg) e, w')
                | ThrowsUndefined \<Rightarrow> (commandCatch None e, w'))
           | _ \<Rightarrow> (commandCatch (Some ''expected.startsWith is not a function'') e, w')))"

text \<open>\<^verbatim>\<open>CommandVerifier.verify\<close> on a command string: no working directory, no overrides.\<close>

definition CommandVerifier_verify_string ::
  "'w host \<Rightarrow> string \<Rightarrow> jsval \<Rightarrow> 'w \<Rightarrow> VerificationResult outcome \<times> 'w" where
  "CommandVerifier_verify_string h cmd e w =
     CommandVerifier_verify h \<lparr>command = cmd, cwd = None, env = None\<rparr> e w"

text \<open>
  \<^verbatim>\<open>FunctionVerifier.verify(fn, expected = true)\<close>: the result it resolves to, or the error
  it rejects with when its catch block throws. The default parameter replaces an
  \<^verbatim>\<open>undefined\<close> argument by \<^verbatim>\<open>true\<close> before the body runs; the body then tests
  \<^verbatim>\<open>expected === undefined\<close>. The catch block reads \<^verbatim>\<open>error.message\<close>.
\<close>

definition FunctionVerifier_verify ::
  "'w VerificationFunction \<Rightarrow> jsval \<Rightarrow> 'w \<Rightarrow> VerificationResult outcome \<times> 'w" where
  "FunctionVerifier_verify fn e0 w =
     (let e = (if e0 = JUndefined then JBool True else e0) in
      case fn w of
        (Returns result, w') \<Rightarrow>
          (let s = (if e = JUndefined then truthy result else result = e)
           in (Returns (createResult s
                          (if s then ''Function verification passed''
                           else ''Function verification failed'')
                          result e), w'))
      | (Throws msg, w') \<Rightarrow>
          (Returns (createResult False (''Function threw error: '' @ msg) (JStr msg) e), w')
      | (ThrowsUndefined, w') \<Rightarrow> (Throws noMessage, w'))"

section \<open>The contract model and the step graph\<close>

datatype StepStatus = Pending | Running | Completed | Failed | Skipped

datatype IntentStatus = IntentPending | IntentRunning | IntentCompleted | IntentFailed | IntentCancelled

text \<open>
  The \<^verbatim>\<open>check\<close> of a \<^verbatim>\<open>VerificationCheck\<close>: a predicate, a command object, or an object
  whose \<^verbatim>\<open>type\<close> tag is something else (the tag is kept).
\<close>

datatype 'w check = CommandCheck VerificationCommand | FunctionCheck "'w VerificationFunction"
  | OtherCheck string

record 'w VerificationCheck =
  name :: "string option"
  check :: "'w check"
  expect :: jsval
  critical :: "bool option"

text \<open>
  The \<^verbatim>\<open>verify\<close> of a step definition, declared \<^verbatim>\<open>any\<close> by \<^verbatim>\<open>Intent.step\<close>: a predicate, a
  command string, a command object, another value (its \<^verbatim>\<open>type\<close> property is not
  \<^verbatim>\<open>'command'\<close>), or nothing at all (\<^verbatim>\<open>undefined\<close>, as for a step of an intent file that
  has no \<^verbatim>\<open>verify\<close> entry).
\<close>

datatype 'w verification = VerifyFunction "'w VerificationFunction" | VerifyString string
  | VerifyCommand VerificationCommand | VerifyOther | VerifyUndefined

text \<open>
  \<^verbatim>\<open>StepDefinition\<close>, with the fields the engine reads. The action is awaited; it may
  change the world and may throw.
\<close>

record 'w StepDefinition =
  def_description :: "string option"
  def_dependencies :: "string list option"
  action :: "('w \<Rightarrow> unit outcome \<times> 'w) option"
  verify :: "'w verification"
  def_expect :: jsval

text \<open>\<^verbatim>\<open>Step\<close>, with the definition that \<^verbatim>\<open>Intent.step\<close> stores on it.\<close>

record 'w Step =
  step_id :: string
  step_name :: string
  description :: "string option"
  step_status :: StepStatus
  step_result :: "VerificationResult option"
  dependencies :: "string list option"
  definition_of :: "'w StepDefinition"

record 'w IntentContract =
  preconditions :: "'w VerificationCheck list option"
  postconditions :: "'w VerificationCheck list option"
  invariants :: "'w VerificationCheck list option"

text \<open>
  \<^verbatim>\<open>IntentOptions\<close> as the field \<^verbatim>\<open>options\<close> of an intent holds it: the value of each property,
  \<open>None\<close> for \<^verbatim>\<open>undefined\<close>.
\<close>

record IntentOptions =
  parallel :: "bool option"
  stopOnFailure :: "bool option"
  verbose :: "bool option"
  dryRun :: "bool option"
  maxRetries :: "nat option"
  timeout :: "nat option"

text \<open>
  \<^verbatim>\<open>IntentOptions\<close> as the constructor is given it: each property is absent (\<open>None\<close>), or
  present with a value, which may be \<^verbatim>\<open>undefined\<close> (\<open>Some None\<close>).
\<close>

record GivenOptions =
  given_parallel :: "bool option option"
  given_stopOnFailure :: "bool option option"
  given_verbose :: "bool option option"
  given_dryRun :: "bool option option"
  given_maxRetries :: "nat option option"
  given_timeout :: "nat option option"

text \<open>
  The fields of the \<^verbatim>\<open>Intent\<close> class. \<^verbatim>\<open>steps\<close> is a JavaScript \<^verbatim>\<open>Map\<close>: an association list in
  insertion order, read with \<^const>\<open>map_of\<close> and written with \<^const>\<open>AList.update\<close>, which
  replaces the value of a key that is present where it stands and appends a new key.
  The step objects live in this map only, so that assigning to a field of a step is
  an update of its entry.
\<close>

record 'w Intent =
  intent_id :: string
  goal :: string
  status :: IntentStatus
  steps :: "(string \<times> 'w Step) list"
  stepOrder :: "string list"
  contract :: "'w IntentContract"
  options :: IntentOptions

text \<open>
  The constructor: the defaults, spread over by the options that are given. A property
  that is present overrides the default also when its value is \<^verbatim>\<open>undefined\<close>. The
  identity comes from \<^verbatim>\<open>crypto.randomBytes\<close> and is an argument here.
\<close>

definition spread :: "'a option \<Rightarrow> 'a option option \<Rightarrow> 'a option" where
  "spread d x = (case x of None \<Rightarrow> d | Some v \<Rightarrow> v)"

definition new_Intent :: "string \<Rightarrow> string \<Rightarrow> GivenOptions \<Rightarrow> 'w Intent" where
  "new_Intent ident g opts =
     \<lparr>intent_id = ident, goal = g, status = IntentPending, steps = [], stepOrder = [],
      contract = \<lparr>preconditions = None, postconditions = None, invariants = None\<rparr>,
      options = \<lparr>parallel = spread (Some False) (given_parallel opts),
                 stopOnFailure = spread (Some True) (given_stopOnFailure opts),
                 verbose = spread (Some False) (given_verbose opts),
                 dryRun = spread None (given_dryRun opts),
                 maxRetries = spread (Some 0) (given_maxRetries opts),
                 timeout = spread (Some 30000) (given_timeout opts)\<rparr>\<rparr>"

text \<open>No options given: \<^verbatim>\<open>new Intent(goal)\<close>.\<close>

definition no_options :: GivenOptions where
  "no_options = \<lparr>given_parallel = None, given_stopOnFailure = None, given_verbose = None,
                  given_dryRun = None, given_maxRetries = None, given_timeout = None\<rparr>"

text \<open>
  The first argument of \<^verbatim>\<open>requires\<close>, \<^verbatim>\<open>ensures\<close> and \<^verbatim>\<open>invariant\<close>: a command string, a
  predicate or a \<^verbatim>\<open>VerificationCheck\<close>.
\<close>

datatype 'w check_argument = StringArg string | FunctionArg "'w VerificationFunction"
  | CheckArg "'w VerificationCheck"

definition push :: "'a list option \<Rightarrow> 'a \<Rightarrow> 'a list option" where
  "push xs x = (case xs of None \<Rightarrow> Some [x] | Some ys \<Rightarrow> Some (ys @ [x]))"

definition requires :: "'w check_argument \<Rightarrow> jsval \<Rightarrow> 'w Intent \<Rightarrow> 'w Intent" where
  "requires c e I =
     (let v = (case c of
                 StringArg s \<Rightarrow>
                   \<lparr>name = None, check = CommandCheck \<lparr>command = s, cwd = None, env = None\<rparr>,
                    expect = e, critical = Some True\<rparr>
               | FunctionArg f \<Rightarrow>
                   \<lparr>name = None, check = FunctionCheck f, expect = e, critical = Some True\<rparr>
               | CheckArg vc \<Rightarrow> vc)
      in I\<lparr>contract := (contract I)\<lparr>preconditions := push (preconditions (contract I)) v\<rparr>\<rparr>)"

definition ensures :: "'w check_argument \<Rightarrow> jsval \<Rightarrow> 'w Intent \<Rightarrow> 'w Intent" where
  "ensures c e I =
     (let v = (case c of
                 StringArg s \<Rightarrow>
                   \<lparr>name = None, check = CommandCheck \<lparr>command = s, cwd = None, env = None\<rparr>,
                    expect = e, critical = Some True\<rparr>
               | FunctionArg f \<Rightarrow>
                   \<lparr>name = None, check = FunctionCheck f, expect = e, critical = Some True\<rparr>
               | CheckArg vc \<Rightarrow> vc)
      in I\<lparr>contract := (contract I)\<lparr>postconditions := push (postconditions (contract I)) v\<rparr>\<rparr>)"

definition invariant :: "'w check_argument \<Rightarrow> jsval \<Rightarrow> 'w Intent \<Rightarrow> 'w Intent" where
  "invariant c e I =
     (let v = (case c of
                 StringArg s \<Rightarrow>
                   \<lparr>name = None, check = CommandCheck \<lparr>command = s, cwd = None, env = None\<rparr>,
                    expect = e, critical = Some True\<rparr>
               | FunctionArg f \<Rightarrow>
                   \<lparr>name = None, check = FunctionCheck f, expect = e, critical = None\<rparr>
               | CheckArg vc \<Rightarrow> vc)
      in I\<lparr>contract := (contract I)\<lparr>invariants := push (invariants (contract I)) v\<rparr>\<rparr>)"

text \<open>
  \<^verbatim>\<open>Intent.step\<close>; the fresh identity \<^verbatim>\<open>crypto.randomBytes(4).toString('hex')\<close> is an
  argument.
\<close>

definition step :: "string \<Rightarrow> string \<Rightarrow> 'w StepDefinition \<Rightarrow> 'w Intent \<Rightarrow> 'w Intent" where
  "step stepId nm d I =
     (let s = \<lparr>step_id = stepId, step_name = nm, description = def_description d,
               step_status = Pending, step_result = None,
               dependencies = def_dependencies d, definition_of = d\<rparr>
      in I\<lparr>steps := AList.update stepId s (steps I), stepOrder := stepOrder I @ [stepId]\<rparr>)"

section \<open>The execution engine\<close>

text \<open>
  The events of the engine, with their payloads (durations left out). \<^verbatim>\<open>emit\<close> is modelled
  as appending to the list of events emitted; the listeners are outside the engine, and
  a listener that throws is not modelled.
\<close>

datatype event =
    EvStart string nat
  | EvPhase string
  | EvFailed string "string option" string
  | EvStepSkipped string string
  | EvStepStart string
  | EvStepComplete string
  | EvStepFailed string string
  | EvStepError string string
  | EvComplete nat

text \<open>
  Two records kept beside the program's own data, to state what ran and in which
  order; the program has no such fields, and nothing it computes reads them.
  A \<open>probe\<close> is written at each call of a check or an action: which kind it was, the
  \<^verbatim>\<open>critical\<close> flag of a contract check or the identity of the step, and whether it
  passed (for an action: returned without throwing; for a step's verification: returned
  a passing verdict, so that a verification that throws counts as not passed). A
  contract check whose call throws, returning no verdict, writes a \<open>Threw\<close> probe.
\<close>

datatype probe =
    PreconditionRan "bool option" bool
  | InvariantRan "bool option" bool
  | ActionRan string bool
  | VerifyRan string bool
  | PostconditionRan "bool option" bool
  | PreconditionThrew "bool option"
  | InvariantThrew "bool option"
  | PostconditionThrew "bool option"

text \<open>
  The state of one call of \<^verbatim>\<open>execute\<close>: the two fields of \<^verbatim>\<open>this\<close> that it assigns, the
  world, the local \<^verbatim>\<open>verificationLog\<close>, the events emitted so far, and the two records
  above: \<open>ran\<close>, and \<open>history\<close>, every assignment to the \<^verbatim>\<open>status\<close> of a step in order.
  The goal, the step order, the contract and the options are read from the intent
  the call started on: an action or a predicate acts on the world, not on the intent.
\<close>

record 'w run =
  this_status :: IntentStatus
  this_steps :: "(string \<times> 'w Step) list"
  world :: 'w
  verificationLog :: "VerificationResult list"
  emitted :: "event list"
  ran :: "probe list"
  history :: "(string \<times> StepStatus) list"

record 'w IntentExecutionResult =
  res_success :: bool
  res_status :: IntentStatus
  res_steps :: "'w Step list"
  failedStep :: "string option"
  failureReason :: "string option"
  res_verificationLog :: "VerificationResult list"

text \<open>
  How a part of \<^verbatim>\<open>execute\<close> ends: it falls through to what follows, it returns the
  result of \<^verbatim>\<open>execute\<close>, or it throws out of \<^verbatim>\<open>execute\<close>, which then rejects: with an error,
  given by its message, or with \<^verbatim>\<open>undefined\<close> (\<open>None\<close>).
\<close>

datatype 'w flow = Next "'w run" | Return "'w IntentExecutionResult" "'w run"
  | Raise "string option" "'w run"

definition and_then :: "'w flow \<Rightarrow> ('w run \<Rightarrow> 'w flow) \<Rightarrow> 'w flow" where
  "and_then f g = (case f of Next r \<Rightarrow> g r | Return x r \<Rightarrow> Return x r | Raise m r \<Rightarrow> Raise m r)"

definition emit :: "event \<Rightarrow> 'w run \<Rightarrow> 'w run" where
  "emit e r = r\<lparr>emitted := emitted r @ [e]\<rparr>"

definition observe :: "probe \<Rightarrow> 'w run \<Rightarrow> 'w run" where
  "observe p r = r\<lparr>ran := ran r @ [p]\<rparr>"

text \<open>\<^verbatim>\<open>step.status = st\<close>, for the step object stored under \<open>sid\<close>.\<close>

definition set_step_status :: "string \<Rightarrow> StepStatus \<Rightarrow> 'w run \<Rightarrow> 'w run" where
  "set_step_status sid st r =
     r\<lparr>this_steps := AList.map_entry sid (\<lambda>s. s\<lparr>step_status := st\<rparr>) (this_steps r),
       history := history r @ [(sid, st)]\<rparr>"

text \<open>\<^verbatim>\<open>step.result = res\<close>.\<close>

definition set_step_result :: "string \<Rightarrow> VerificationResult \<Rightarrow> 'w run \<Rightarrow> 'w run" where
  "set_step_result sid res r =
     r\<lparr>this_steps := AList.map_entry sid (\<lambda>s. s\<lparr>step_result := Some res\<rparr>) (this_steps r)\<rparr>"

text \<open>The object returned on every failing path.\<close>

definition failure :: "string \<Rightarrow> string \<Rightarrow> 'w run \<Rightarrow> 'w IntentExecutionResult" where
  "failure label reason r =
     \<lparr>res_success = False, res_status = IntentFailed, res_steps = map snd (this_steps r),
      failedStep = Some label, failureReason = Some reason,
      res_verificationLog = verificationLog r\<rparr>"

text \<open>\<^verbatim>\<open>Intent.verifyCheck\<close>.\<close>

definition verifyCheck ::
  "'w host \<Rightarrow> 'w VerificationCheck \<Rightarrow> 'w \<Rightarrow> VerificationResult outcome \<times> 'w" where
  "verifyCheck h c w =
     (case check c of
        FunctionCheck f \<Rightarrow> FunctionVerifier_verify f (expect c) w
      | CommandCheck vc \<Rightarrow> CommandVerifier_verify h vc (expect c) w
      | OtherCheck t \<Rightarrow>
          (Returns \<lparr>success = False, message = ''Unknown verification type'',
                    actual = JUndefined, expected = JUndefined, evidence = None\<rparr>, w))"

text \<open>
  \<^verbatim>\<open>Intent.verifyStep\<close>. Reading \<^verbatim>\<open>definition.verify.type\<close> of a definition with no
  \<^verbatim>\<open>verify\<close> throws a \<^verbatim>\<open>TypeError\<close>.
\<close>

definition verifyStep ::
  "'w host \<Rightarrow> 'w StepDefinition \<Rightarrow> 'w \<Rightarrow> VerificationResult outcome \<times> 'w" where
  "verifyStep h d w =
     (case verify d of
        VerifyFunction f \<Rightarrow> FunctionVerifier_verify f (def_expect d) w
      | VerifyString s \<Rightarrow> CommandVerifier_verify_string h s (def_expect d) w
      | VerifyCommand vc \<Rightarrow> CommandVerifier_verify h vc (def_expect d) w
      | VerifyOther \<Rightarrow>
          (Returns \<lparr>success = False, message = ''No verification defined for step'',
                    actual = JUndefined, expected = JUndefined, evidence = None\<rparr>, w)
      | VerifyUndefined \<Rightarrow>
          (Throws ''Cannot read properties of undefined (reading 'type')'', w))"

text \<open>The loop over the preconditions.\<close>

fun check_preconditions :: "'w host \<Rightarrow> 'w VerificationCheck list \<Rightarrow> 'w run \<Rightarrow> 'w flow" where
  "check_preconditions h [] r = Next r"
| "check_preconditions h (p # ps) r =
     (case verifyCheck h p (world r) of
        (Returns result, w') \<Rightarrow>
          (let r1 = observe (PreconditionRan (critical p) (success result))
                      (r\<lparr>world := w', verificationLog := verificationLog r @ [result]\<rparr>)
           in if \<not> success result \<and> critical p \<noteq> Some False then
                (let r2 = emit (EvFailed ''preconditions'' None (message result))
                            (r1\<lparr>this_status := IntentFailed\<rparr>)
                 in Return (failure ''preconditions'' (message result) r2) r2)
              else check_preconditions h ps r1)
      | (Throws msg, w') \<Rightarrow>
          Raise (Some msg) (observe (PreconditionThrew (critical p)) (r\<lparr>world := w'\<rparr>))
      | (ThrowsUndefined, w') \<Rightarrow>
          Raise None (observe (PreconditionThrew (critical p)) (r\<lparr>world := w'\<rparr>)))"

text \<open>The loop over the postconditions.\<close>

fun check_postconditions :: "'w host \<Rightarrow> 'w VerificationCheck list \<Rightarrow> 'w run \<Rightarrow> 'w flow" where
  "check_postconditions h [] r = Next r"
| "check_postconditions h (p # ps) r =
     (case verifyCheck h p (world r) of
        (Returns result, w') \<Rightarrow>
          (let r1 = observe (PostconditionRan (critical p) (success result))
                      (r\<lparr>world := w', verificationLog := verificationLog r @ [result]\<rparr>)
           in if \<not> success result \<and> critical p \<noteq> Some False then
                (let r2 = emit (EvFailed ''postconditions'' None (message result))
                            (r1\<lparr>this_status := IntentFailed\<rparr>)
                 in Return (failure ''postconditions'' (message result) r2) r2)
              else check_postconditions h ps r1)
      | (Throws msg, w') \<Rightarrow>
          Raise (Some msg) (observe (PostconditionThrew (critical p)) (r\<lparr>world := w'\<rparr>))
      | (ThrowsUndefined, w') \<Rightarrow>
          Raise None (observe (PostconditionThrew (critical p)) (r\<lparr>world := w'\<rparr>)))"

text \<open>The loop over the invariants before the step \<open>s\<close> stored under \<open>sid\<close>.\<close>

fun check_invariants_before ::
  "'w host \<Rightarrow> 'w VerificationCheck list \<Rightarrow> string \<Rightarrow> 'w Step \<Rightarrow> 'w run \<Rightarrow> 'w flow" where
  "check_invariants_before h [] sid s r = Next r"
| "check_invariants_before h (i # is) sid s r =
     (case verifyCheck h i (world r) of
        (Returns result, w') \<Rightarrow>
          (let r1 = observe (InvariantRan (critical i) (success result)) (r\<lparr>world := w'\<rparr>)
           in if \<not> success result then
                (let r2 = emit (EvFailed ''invariant'' (Some (step_name s)) (message result))
                            (set_step_status sid Failed (r1\<lparr>this_status := IntentFailed\<rparr>))
                 in Return (failure (''invariant before '' @ step_name s) (message result) r2) r2)
              else check_invariants_before h is sid s r1)
      | (Throws msg, w') \<Rightarrow>
          Raise (Some msg) (observe (InvariantThrew (critical i)) (r\<lparr>world := w'\<rparr>))
      | (ThrowsUndefined, w') \<Rightarrow>
          Raise None (observe (InvariantThrew (critical i)) (r\<lparr>world := w'\<rparr>)))"

text \<open>The loop over the invariants after the step \<open>s\<close>.\<close>

fun check_invariants_after ::
  "'w host \<Rightarrow> 'w VerificationCheck list \<Rightarrow> 'w Step \<Rightarrow> 'w run \<Rightarrow> 'w flow" where
  "check_invariants_after h [] s r = Next r"
| "check_invariants_after h (i # is) s r =
     (case verifyCheck h i (world r) of
        (Returns result, w') \<Rightarrow>
          (let r1 = observe (InvariantRan (critical i) (success result)) (r\<lparr>world := w'\<rparr>)
           in if \<not> success result then
                (let r2 = emit (EvFailed ''invariant'' (Some (step_name s)) (message result))
                            (r1\<lparr>this_status := IntentFailed\<rparr>)
                 in Return (failure (''invariant after '' @ step_name s) (message result) r2) r2)
              else check_invariants_after h is s r1)
      | (Throws msg, w') \<Rightarrow>
          Raise (Some msg) (observe (InvariantThrew (critical i)) (r\<lparr>world := w'\<rparr>))
      | (ThrowsUndefined, w') \<Rightarrow>
          Raise None (observe (InvariantThrew (critical i)) (r\<lparr>world := w'\<rparr>)))"

text \<open>\<^verbatim>\<open>step.dependencies.filter(...)\<close>: the dependencies that are missing or not completed.\<close>

definition unmetDeps :: "'w run \<Rightarrow> string list \<Rightarrow> string list" where
  "unmetDeps r deps =
     filter (\<lambda>depId. case map_of (this_steps r) depId of
                       None \<Rightarrow> True
                     | Some dep \<Rightarrow> step_status dep \<noteq> Completed) deps"

text \<open>
  The catch block of the step, entered with what was thrown: the message of an error, or
  nothing for \<^verbatim>\<open>undefined\<close>. It assigns the status, then reads \<^verbatim>\<open>error.message\<close> to build the
  result of the step; when that read throws, the error leaves \<^verbatim>\<open>execute\<close>.
\<close>

definition step_catch ::
  "'w Intent \<Rightarrow> string \<Rightarrow> 'w Step \<Rightarrow> string option \<Rightarrow> 'w run \<Rightarrow> 'w flow" where
  "step_catch I sid s err r =
     (let r0 = set_step_status sid Failed r in
      case err of
        None \<Rightarrow> Raise (Some noMessage) r0
      | Some msg \<Rightarrow>
          (let r1 = set_step_result sid
                      \<lparr>success = False, message = ''Step execution error: '' @ msg,
                       actual = JUndefined, expected = JUndefined, evidence = None\<rparr> r0;
               r2 = emit (EvStepError (step_name s) msg) r1
           in if stopOnFailure (options I) = Some True then
                (let r3 = r2\<lparr>this_status := IntentFailed\<rparr>
                 in Return (failure (step_name s) msg r3) r3)
              else Next r2))"

text \<open>The try block of the step, after the verification has returned \<open>result\<close>.\<close>

definition step_verified ::
  "'w Intent \<Rightarrow> string \<Rightarrow> 'w Step \<Rightarrow> VerificationResult \<Rightarrow> 'w run \<Rightarrow> 'w flow" where
  "step_verified I sid s result r =
     (let r1 = (set_step_result sid result r)\<lparr>verificationLog := verificationLog r @ [result]\<rparr>
      in if success result then
           Next (emit (EvStepComplete (step_name s)) (set_step_status sid Completed r1))
         else
           (let r2 = emit (EvStepFailed (step_name s) (message result))
                       (set_step_status sid Failed r1)
            in if stopOnFailure (options I) = Some True then
                 (let r3 = r2\<lparr>this_status := IntentFailed\<rparr>
                  in Return (failure (step_name s) (message result) r3) r3)
               else Next r2))"

text \<open>The try statement: the action if there is one, then the verification.\<close>

definition run_step :: "'w host \<Rightarrow> 'w Intent \<Rightarrow> string \<Rightarrow> 'w Step \<Rightarrow> 'w run \<Rightarrow> 'w flow" where
  "run_step h I sid s r =
     (let d = definition_of s in
      case (case action d of
              None \<Rightarrow> (Returns (), r)
            | Some act \<Rightarrow>
                (case act (world r) of (a, w') \<Rightarrow>
                   (a, observe (ActionRan sid (a = Returns ())) (r\<lparr>world := w'\<rparr>))))
      of (Throws msg, r1) \<Rightarrow> step_catch I sid s (Some msg) r1
       | (ThrowsUndefined, r1) \<Rightarrow> step_catch I sid s None r1
       | (Returns u, r1) \<Rightarrow>
           (case verifyStep h d (world r1) of
              (Throws msg, w') \<Rightarrow>
                step_catch I sid s (Some msg) (observe (VerifyRan sid False) (r1\<lparr>world := w'\<rparr>))
            | (ThrowsUndefined, w') \<Rightarrow>
                step_catch I sid s None (observe (VerifyRan sid False) (r1\<lparr>world := w'\<rparr>))
            | (Returns result, w') \<Rightarrow>
                step_verified I sid s result
                  (observe (VerifyRan sid (success result)) (r1\<lparr>world := w'\<rparr>))))"

text \<open>
  The body of the loop over \<^verbatim>\<open>stepOrder\<close>. \<^verbatim>\<open>this.steps.get(stepId)!\<close> is \<^verbatim>\<open>undefined\<close> for
  an identity that is not in the map, and reading its definition throws.
\<close>

definition execute_step :: "'w host \<Rightarrow> 'w Intent \<Rightarrow> string \<Rightarrow> 'w run \<Rightarrow> 'w flow" where
  "execute_step h I sid r =
     (case map_of (this_steps r) sid of
        None \<Rightarrow> Raise (Some ''Cannot read properties of undefined (reading '_definition')'') r
      | Some s \<Rightarrow>
          if (case dependencies s of None \<Rightarrow> False | Some deps \<Rightarrow> length (unmetDeps r deps) > 0)
          then Next (emit (EvStepSkipped (step_name s) ''unmet dependencies'')
                       (set_step_status sid Skipped r))
          else
            and_then (case invariants (contract I) of
                        None \<Rightarrow> Next r
                      | Some invs \<Rightarrow> check_invariants_before h invs sid s r)
              (\<lambda>r1. and_then (run_step h I sid s
                                (emit (EvStepStart (step_name s)) (set_step_status sid Running r1)))
                (\<lambda>r2. case invariants (contract I) of
                         None \<Rightarrow> Next r2
                       | Some invs \<Rightarrow> check_invariants_after h invs s r2)))"

fun execute_steps :: "'w host \<Rightarrow> 'w Intent \<Rightarrow> string list \<Rightarrow> 'w run \<Rightarrow> 'w flow" where
  "execute_steps h I [] r = Next r"
| "execute_steps h I (sid # sids) r = and_then (execute_step h I sid r) (execute_steps h I sids)"

text \<open>The state in which \<^verbatim>\<open>execute\<close> starts on the intent \<open>I\<close> in the world \<open>w\<close>.\<close>

definition start_run :: "'w Intent \<Rightarrow> 'w \<Rightarrow> 'w run" where
  "start_run I w =
     \<lparr>this_status = IntentRunning, this_steps = steps I, world = w, verificationLog = [],
      emitted = [EvStart (goal I) (length (stepOrder I))], ran = [], history = []\<rparr>"

text \<open>The end of \<^verbatim>\<open>execute\<close>, reached when nothing returned before.\<close>

definition complete :: "'w run \<Rightarrow> 'w flow" where
  "complete r =
     (let r1 = emit (EvComplete (length (this_steps r))) (r\<lparr>this_status := IntentCompleted\<rparr>)
      in Return \<lparr>res_success = True, res_status = IntentCompleted,
                 res_steps = map snd (this_steps r1), failedStep = None, failureReason = None,
                 res_verificationLog = verificationLog r1\<rparr> r1)"

text \<open>\<^verbatim>\<open>Intent.execute\<close>.\<close>

definition execute :: "'w host \<Rightarrow> 'w Intent \<Rightarrow> 'w \<Rightarrow> 'w flow" where
  "execute h I w =
     and_then (case preconditions (contract I) of
                 None \<Rightarrow> Next (start_run I w)
               | Some ps \<Rightarrow> check_preconditions h ps (emit (EvPhase ''preconditions'') (start_run I w)))
       (\<lambda>r1. and_then (execute_steps h I (stepOrder I) (emit (EvPhase ''execution'') r1))
         (\<lambda>r2. and_then (case postconditions (contract I) of
                           None \<Rightarrow> Next r2
                         | Some qs \<Rightarrow> check_postconditions h qs (emit (EvPhase ''postconditions'') r2))
            complete))"

text \<open>What the caller of \<^verbatim>\<open>execute\<close> gets, and the state the call ends in.\<close>

fun returned :: "'w flow \<Rightarrow> 'w IntentExecutionResult option" where
  "returned (Return x r) = Some x"
| "returned (Next r) = None"
| "returned (Raise m r) = None"

fun final :: "'w flow \<Rightarrow> 'w run" where
  "final (Return x r) = r"
| "final (Next r) = r"
| "final (Raise m r) = r"

section \<open>Notions for stating the properties\<close>

text \<open>
  The integer that a string of decimal digits denotes: the sum of its digits, the last
  one first, each weighted by its power of ten.
\<close>

definition decimalValue :: "string \<Rightarrow> int" where
  "decimalValue ds = horner_sum (\<lambda>c. int (of_char c) - 48) 10 (rev ds)"

text \<open>What a call resolves to, when it does not throw.\<close>

fun resolved :: "'a outcome \<Rightarrow> 'a option" where
  "resolved (Returns x) = Some x"
| "resolved (Throws msg) = None"
| "resolved ThrowsUndefined = None"

text \<open>The verdict a probe records; a check that threw did not pass.\<close>

fun passed :: "probe \<Rightarrow> bool" where
  "passed (PreconditionRan c b) = b"
| "passed (InvariantRan c b) = b"
| "passed (ActionRan sid b) = b"
| "passed (VerifyRan sid b) = b"
| "passed (PostconditionRan c b) = b"
| "passed (PreconditionThrew c) = False"
| "passed (InvariantThrew c) = False"
| "passed (PostconditionThrew c) = False"

text \<open>
  The checks on which the verdict of \<^verbatim>\<open>execute\<close> depends: all of them except the
  preconditions and postconditions marked \<^verbatim>\<open>critical: false\<close> that returned a verdict.
\<close>

fun decisive :: "probe \<Rightarrow> bool" where
  "decisive (PreconditionRan c b) = (c \<noteq> Some False)"
| "decisive (PostconditionRan c b) = (c \<noteq> Some False)"
| "decisive (InvariantRan c b) = True"
| "decisive (ActionRan sid b) = True"
| "decisive (VerifyRan sid b) = True"
| "decisive (PreconditionThrew c) = True"
| "decisive (InvariantThrew c) = True"
| "decisive (PostconditionThrew c) = True"

text \<open>Every decisive check among the probes passed.\<close>

definition all_passed :: "probe list \<Rightarrow> bool" where
  "all_passed ps = (\<forall>p \<in> set ps. decisive p \<longrightarrow> passed p)"

text \<open>
  A part of \<^verbatim>\<open>execute\<close> started with the probes \<open>ps\<close> written keeps the verdict sound:
  falling through keeps \<^const>\<open>all_passed\<close>, and a result returned is a failure with a decisive
  probe that did not pass.
\<close>

definition verdict_sound :: "probe list \<Rightarrow> 'w flow \<Rightarrow> bool" where
  "verdict_sound ps fl =
     (case fl of
        Next r' \<Rightarrow> all_passed ps \<longrightarrow> all_passed (ran r')
      | Return x r' \<Rightarrow> \<not> res_success x \<and> \<not> all_passed (ran r')
      | Raise m r' \<Rightarrow> True)"

text \<open>
  When a part of \<^verbatim>\<open>execute\<close> throws, a decisive probe that did not pass has been written.
\<close>

definition raise_sound :: "'w flow \<Rightarrow> bool" where
  "raise_sound fl = (case fl of Raise m r' \<Rightarrow> \<not> all_passed (ran r') | _ \<Rightarrow> True)"

text \<open>The three phases of \<^verbatim>\<open>execute\<close> before its last statements.\<close>

definition phases :: "'w host \<Rightarrow> 'w Intent \<Rightarrow> 'w \<Rightarrow> 'w flow" where
  "phases h I w =
     and_then (case preconditions (contract I) of
                 None \<Rightarrow> Next (start_run I w)
               | Some ps \<Rightarrow> check_preconditions h ps (emit (EvPhase ''preconditions'') (start_run I w)))
       (\<lambda>r1. and_then (execute_steps h I (stepOrder I) (emit (EvPhase ''execution'') r1))
         (\<lambda>r2. case postconditions (contract I) of
                  None \<Rightarrow> Next r2
                | Some qs \<Rightarrow> check_postconditions h qs (emit (EvPhase ''postconditions'') r2)))"

text \<open>Every check among the probes passed, decisive or not.\<close>

definition every_check_passed :: "probe list \<Rightarrow> bool" where
  "every_check_passed ps = list_all passed ps"

text \<open>
  \<^verbatim>\<open>execute\<close> returned a failure: \<^verbatim>\<open>success\<close> false, status \<^verbatim>\<open>failed\<close>, and the intent left
  \<^verbatim>\<open>failed\<close>.
\<close>

fun aborted :: "'w flow \<Rightarrow> bool" where
  "aborted (Return x r) = (\<not> res_success x \<and> res_status x = IntentFailed \<and> this_status r = IntentFailed)"
| "aborted (Next r) = False"
| "aborted (Raise m r) = False"

text \<open>
  A part of \<^verbatim>\<open>execute\<close> started with the probes \<open>ps\<close> written aborts on a failing invariant:
  a failed invariant probe that was not there before is the last probe written, and the
  part returned a failure.
\<close>

definition invariant_abort :: "probe list \<Rightarrow> 'w flow \<Rightarrow> bool" where
  "invariant_abort ps fl =
     (\<forall>c. InvariantRan c False \<in> set (ran (final fl)) \<longrightarrow>
          InvariantRan c False \<in> set ps
          \<or> (aborted fl \<and> last (ran (final fl)) = InvariantRan c False))"

text \<open>
  Nothing is erased: when a part of \<^verbatim>\<open>execute\<close> started in \<open>r\<close> ends, the probes, the events,
  the verification log and the history of status assignments extend those of \<open>r\<close>.
\<close>

definition grows :: "'w run \<Rightarrow> 'w flow \<Rightarrow> bool" where
  "grows r fl =
     ((\<exists>ps. ran (final fl) = ran r @ ps) \<and> (\<exists>es. emitted (final fl) = emitted r @ es)
      \<and> (\<exists>vs. verificationLog (final fl) = verificationLog r @ vs)
      \<and> (\<exists>hs. history (final fl) = history r @ hs))"

text \<open>\<^verbatim>\<open>execute\<close> from the step phase on, entered in the state \<open>r1\<close>.\<close>

definition steps_onward :: "'w host \<Rightarrow> 'w Intent \<Rightarrow> 'w run \<Rightarrow> 'w flow" where
  "steps_onward h I r1 =
     and_then (execute_steps h I (stepOrder I) (emit (EvPhase ''execution'') r1))
       (\<lambda>r2. and_then (case postconditions (contract I) of
                         None \<Rightarrow> Next r2
                       | Some qs \<Rightarrow> check_postconditions h qs (emit (EvPhase ''postconditions'') r2))
          complete)"





text \<open>
  The order of the statuses of a step: \<^verbatim>\<open>pending\<close>, then \<^verbatim>\<open>running\<close>, then the terminal
  statuses \<^verbatim>\<open>completed\<close>, \<^verbatim>\<open>failed\<close> and \<^verbatim>\<open>skipped\<close>.
\<close>

fun rank :: "StepStatus \<Rightarrow> nat" where
  "rank Pending = 0"
| "rank Running = 1"
| "rank Completed = 2"
| "rank Failed = 2"
| "rank Skipped = 2"

definition advances :: "StepStatus \<Rightarrow> StepStatus \<Rightarrow> bool" where
  "advances a b = (rank a < rank b)"

text \<open>
  A sequence of statuses only advances: every status in it is strictly later in the
  order than all statuses before it. In particular nothing follows a terminal status.
\<close>

definition forward :: "StepStatus list \<Rightarrow> bool" where
  "forward sts = sorted_wrt advances sts"

text \<open>The statuses assigned to the step \<open>sid\<close>, in order, in a history of assignments.\<close>

definition assigned :: "string \<Rightarrow> (string \<times> StepStatus) list \<Rightarrow> StepStatus list" where
  "assigned sid hs = map snd (filter (\<lambda>e. fst e = sid) hs)"

text \<open>
  A part of \<^verbatim>\<open>execute\<close> started in \<open>r\<close> assigns statuses to steps of \<open>S\<close> only, and to each of
  them a sequence that only advances from \<^verbatim>\<open>pending\<close>.
\<close>

definition visits :: "string set \<Rightarrow> 'w run \<Rightarrow> 'w flow \<Rightarrow> bool" where
  "visits S r fl =
     (\<exists>hs. history (final fl) = history r @ hs \<and> fst ` set hs \<subseteq> S
           \<and> (\<forall>t. forward (Pending # assigned t hs)))"

text \<open>
  The history of assignments accounts for the statuses in the step map \<open>ss\<close>: a step has
  the status last assigned to it, or the status it has in the initial map \<open>ss0\<close> when none
  was assigned; and the two maps have the same steps.
\<close>

definition tracked ::
  "(string \<times> 'w Step) list \<Rightarrow> (string \<times> 'w Step) list \<Rightarrow> (string \<times> StepStatus) list \<Rightarrow> bool" where
  "tracked ss0 ss hs =
     (\<forall>t. map_option step_status (map_of ss t)
            = map_option (\<lambda>s. last (step_status s # assigned t hs)) (map_of ss0 t))"

text \<open>
  A part of \<^verbatim>\<open>execute\<close> started with the probes \<open>ps\<close> written runs the verification of
  steps of \<open>S\<close> only.
\<close>

definition verifies_only :: "string set \<Rightarrow> probe list \<Rightarrow> 'w flow \<Rightarrow> bool" where
  "verifies_only S ps fl =
     (\<forall>t b. VerifyRan t b \<in> set (ran (final fl)) \<longrightarrow> VerifyRan t b \<in> set ps \<or> t \<in> S)"

section \<open>Example hosts and intents\<close>

text \<open>
  A host over a world that counts the commands run: the command \<^verbatim>\<open>false\<close> exits non-zero,
  every other command prints \<^verbatim>\<open>ok\<close>; every regular expression matches.
\<close>

definition counting_host :: "nat host" where
  "counting_host =
     \<lparr>execSync = (\<lambda>cmd d e w. if cmd = ''false'' then (Throws ''exit 1'', Suc w)
                               else (Returns ''ok '', Suc w)),
      RegExp_test = (\<lambda>src out. Returns True)\<rparr>"

definition always_false :: "nat VerificationFunction" where
  "always_false = (\<lambda>w. (Returns (JBool False), w))"

definition verified_by :: "nat verification \<Rightarrow> nat StepDefinition" where
  "verified_by v = \<lparr>def_description = None, def_dependencies = None, action = None, verify = v,
                    def_expect = JUndefined\<rparr>"

definition lenient_intent :: "nat Intent" where
  "lenient_intent =
     requires (CheckArg \<lparr>name = None, check = FunctionCheck always_false, expect = JUndefined,
                         critical = Some False\<rparr>) JUndefined
       (new_Intent ''i1'' ''lenient'' no_options)"

definition contract_intent :: "nat Intent" where
  "contract_intent =
     ensures (StringArg ''true'') JUndefined
       (step ''s1'' ''build'' (verified_by (VerifyString ''true''))
          (invariant (StringArg ''true'') JUndefined
             (requires (StringArg ''false'') (JStr ''fails'')
                (new_Intent ''i2'' ''contract'' no_options))))"

definition continue_intent :: "nat Intent" where
  "continue_intent =
     step ''s2'' ''second'' (verified_by (VerifyString ''true''))
       (step ''s1'' ''first'' (verified_by (VerifyString ''false''))
          (new_Intent ''i3'' ''continue'' (no_options\<lparr>given_stopOnFailure := Some (Some False)\<rparr>)))"

definition guarded_intent :: "nat Intent" where
  "guarded_intent =
     step ''s1'' ''build'' (verified_by (VerifyString ''true''))
       (invariant (CheckArg \<lparr>name = None, check = FunctionCheck always_false,
                             expect = JUndefined, critical = Some False\<rparr>) JUndefined
          (new_Intent ''i4'' ''guarded'' no_options))"

definition failing_command :: VerificationCommand where
  "failing_command = \<lparr>command = ''false'', cwd = None, env = None\<rparr>"

definition expects_failure :: "nat VerificationCheck" where
  "expects_failure = \<lparr>name = None, check = CommandCheck failing_command, expect = JStr ''fails'',
                       critical = Some True\<rparr>"

definition bugfix_intent :: "nat Intent" where
  "bugfix_intent =
     step ''s1'' ''Apply fix'' (verified_by (VerifyString ''true''))
       (requires (StringArg ''false'') (JStr ''fails'') (new_Intent ''i5'' ''Fix bug'' no_options))"

definition orphan_step :: "nat Step" where
  "orphan_step =
     \<lparr>step_id = ''s1'', step_name = ''deploy'', description = None, step_status = Pending,
      step_result = None, dependencies = Some [''zz''],
      definition_of = (verified_by (VerifyString ''true''))\<lparr>def_dependencies := Some [''zz'']\<rparr>\<rparr>"

definition orphan_intent :: "nat Intent" where
  "orphan_intent =
     step ''s1'' ''deploy'' ((verified_by (VerifyString ''true''))\<lparr>def_dependencies := Some [''zz'']\<rparr>)
       (new_Intent ''i6'' ''orphan'' no_options)"





definition dependent_intent :: "nat Intent" where
  "dependent_intent =
     step ''s2'' ''second'' ((verified_by (VerifyString ''true''))\<lparr>def_dependencies := Some [''s1'']\<rparr>)
       (step ''s1'' ''first'' (verified_by (VerifyString ''false''))
          (new_Intent ''i8'' ''dependent'' no_options))"

text \<open>A predicate that throws \<^verbatim>\<open>undefined\<close>, as \<^verbatim>\<open>() => Promise.reject()\<close> does when awaited.\<close>

definition always_rejects :: "nat VerificationFunction" where
  "always_rejects = (\<lambda>w. (ThrowsUndefined, w))"

definition rejecting_intent :: "nat Intent" where
  "rejecting_intent =
     requires (CheckArg \<lparr>name = None, check = FunctionCheck always_rejects, expect = JUndefined,
                         critical = Some False\<rparr>) JUndefined
       (new_Intent ''i9'' ''rejecting'' no_options)"

section \<open>Properties of the verification backends\<close>

lemma isDigit_isRadixDigit: "isDigit c \<Longrightarrow> isRadixDigit 10 c"
  by (auto simp: isDigit_def isRadixDigit_def digitValue_def)

text \<open>No white space starts with a decimal digit, a sign or a letter.\<close>

lemma strip_no_white_space:
  "\<forall>w \<in> set ws. w = [] \<or> \<not> startsWith s w \<Longrightarrow> strip ws s = s"
proof -
  assume a: "\<forall>w \<in> set ws. w = [] \<or> \<not> startsWith s w"
  then have "find (\<lambda>w. w \<noteq> [] \<and> startsWith s w) ws = None"
    by (auto simp: find_None_iff)
  then show ?thesis by (subst strip.simps) simp
qed

lemma trimStart_digit: "isDigit d \<Longrightarrow> trimStart (d # rest) = d # rest"
  unfolding trimStart_def
  by (rule strip_no_white_space) (auto simp: whiteSpace_def startsWith_def isDigit_def)

lemma trimStart_minus: "trimStart (CHR ''-'' # rest) = CHR ''-'' # rest"
  unfolding trimStart_def
  by (rule strip_no_white_space) (auto simp: whiteSpace_def startsWith_def)

lemma digits_no_prefix:
  assumes "list_all isDigit ds"
  shows "\<not> startsWith ds ''-''" "\<not> startsWith ds ''+''"
    "\<not> startsWith ds ''0x''" "\<not> startsWith ds ''0X''"
proof -
  { fix p assume "startsWith ds [p]" and "\<not> isDigit p"
    then have "p \<in> set ds" by (cases ds) (auto simp: startsWith_def)
    with assms \<open>\<not> isDigit p\<close> have False by (simp add: list_all_iff) }
  then show "\<not> startsWith ds ''-''" "\<not> startsWith ds ''+''"
    by (auto simp: isDigit_def)
  { fix p assume "startsWith ds [CHR ''0'', p]" and "\<not> isDigit p"
    then have "p \<in> set ds" by (cases ds; cases "tl ds") (auto simp: startsWith_def)
    with assms \<open>\<not> isDigit p\<close> have False by (simp add: list_all_iff) }
  then show "\<not> startsWith ds ''0x''" "\<not> startsWith ds ''0X''"
    by (auto simp: isDigit_def)
qed

text \<open>
  The digits read by \<^const>\<open>parseInt\<close> in radix 10 denote the integer of \<^const>\<open>decimalValue\<close>.
\<close>

lemma digitsValue_snoc:
  "digitsValue 10 (ds @ [d]) =
     digitsValue 10 ds * 10 + int (case digitValue d of None \<Rightarrow> 0 | Some v \<Rightarrow> v)"
  by (simp add: digitsValue_def)

lemma digitsValue_decimalValue: "list_all isDigit ds \<Longrightarrow> digitsValue 10 ds = decimalValue ds"
proof (induction ds rule: rev_induct)
  case Nil
  show ?case by (simp add: digitsValue_def decimalValue_def)
next
  case (snoc d ds)
  then have d: "isDigit d" and ds: "list_all isDigit ds" by simp_all
  from d have "int (case digitValue d of None \<Rightarrow> 0 | Some v \<Rightarrow> v) = int (of_char d) - 48"
    by (auto simp: isDigit_def digitValue_def)
  with snoc.IH[OF ds] show ?case
    by (simp add: digitsValue_snoc decimalValue_def)
qed

lemma decimalValue_nonneg: "list_all isDigit ds \<Longrightarrow> 0 \<le> decimalValue ds"
proof (induction ds rule: rev_induct)
  case Nil
  show ?case by (simp add: decimalValue_def)
next
  case (snoc d ds)
  then have d: "isDigit d" and ds: "list_all isDigit ds" by simp_all
  from d have "0 \<le> int (of_char d) - 48" by (auto simp: isDigit_def)
  with snoc.IH[OF ds] show ?case by (simp add: decimalValue_def)
qed

text \<open>On a non-empty string of decimal digits, with or without a minus sign in front.\<close>

lemma parseInt_digits:
  assumes "ds \<noteq> []" and "list_all isDigit ds"
  shows "parseInt ds = toNumber (decimalValue ds)"
proof -
  obtain d rest where ds: "ds = d # rest" using assms(1) by (cases ds) auto
  have d: "isDigit d" using assms(2) ds by simp
  have s1: "trimStart ds = ds" using d ds trimStart_digit by simp
  have tw: "takeWhile (isRadixDigit 10) ds = ds"
    using assms(2) by (simp add: list_all_iff isDigit_isRadixDigit)
  show ?thesis
    using assms(1) digits_no_prefix[OF assms(2)] digitsValue_decimalValue[OF assms(2)]
    by (simp add: parseInt_def Let_def s1 tw)
qed

lemma parseInt_minus_digits:
  assumes "ds \<noteq> []" and "list_all isDigit ds"
  shows "parseInt (CHR ''-'' # ds) = toNumber (- decimalValue ds)"
proof -
  have tw: "takeWhile (isRadixDigit 10) ds = ds"
    using assms(2) by (simp add: list_all_iff isDigit_isRadixDigit)
  have m: "startsWith (CHR ''-'' # ds) ''-''" by (simp add: startsWith_def)
  show ?thesis
    using assms(1) digits_no_prefix[OF assms(2)] digitsValue_decimalValue[OF assms(2)] m
    by (simp add: parseInt_def Let_def trimStart_minus tw)
qed

text \<open>Integers of magnitude up to \<open>2^53\<close> are numbers as they are.\<close>

lemma roundNat_exact: "n \<le> 9007199254740992 \<Longrightarrow> roundNat n = n"
proof (cases "n < 9007199254740992")
  case True
  then show ?thesis by (simp add: roundNat_def ulp.simps)
next
  case False
  assume "n \<le> 9007199254740992"
  with False have "n = 9007199254740992" by simp
  then show ?thesis by (simp add: roundNat_def ulp.simps)
qed

lemma toNumber_exact: "\<bar>i\<bar> \<le> 9007199254740992 \<Longrightarrow> toNumber i = Finite i"
proof -
  assume a: "\<bar>i\<bar> \<le> 9007199254740992"
  then have n: "nat \<bar>i\<bar> \<le> 9007199254740992" by simp
  have "(9007199254740992::nat) < 2 ^ 1024" by simp
  with n have "\<not> 2 ^ 1024 \<le> nat \<bar>i\<bar>" by linarith
  with roundNat_exact[OF n] show ?thesis
    by (simp add: toNumber_def Let_def)
qed

text \<open>Beyond that they are rounded.\<close>

lemma toNumber_rounds: "toNumber 9007199254740993 = Finite 9007199254740992"
  by (simp add: toNumber_def roundNat_def ulp.simps Let_def)

lemma comparator_not_regex: "matchesComparator e \<Longrightarrow> \<not> startsWith e ''/''"
  by (cases e) (auto simp: matchesComparator_def startsWith_def)

lemma checkExpectation_comparator:
  assumes "c \<in> set ''<>=''" and "ds \<noteq> []" and "list_all isDigit ds"
  shows "checkExpectation h output (c # ds) =
         Returns (numCompare c (parseInt output) (toNumber (decimalValue ds)))"
proof -
  have m: "matchesComparator (c # ds)" using assms by (simp add: matchesComparator_def)
  have "parseInt output = NaN \<Longrightarrow>
        numCompare c (parseInt output) (toNumber (decimalValue ds)) = False"
    by (simp add: numCompare_def number_greater_def)
  then show ?thesis
    using m comparator_not_regex[OF m] parseInt_digits[OF assms(2,3)]
    by (simp add: checkExpectation_def Let_def)
qed

lemmas matcher_defs = checkExpectation_def startsWith_def endsWith_def matchesComparator_def
  isDigit_def parseInt_def trimStart_def strip.simps whiteSpace_def isRadixDigit_def
  digitValue_def digitsValue_def numCompare_def number_greater_def toNumber_def roundNat_def
  ulp.simps Let_def

text \<open>
  Claim C8. In the Expectation Matcher, an expected value made of a comparator
  character (\<^verbatim>\<open>>\<close>, \<^verbatim>\<open><\<close>, \<^verbatim>\<open>=\<close>) followed by decimal digits is matched by parsing the output
  with \<^verbatim>\<open>parseInt\<close> and comparing the number obtained, by the operator, with the number
  that the digits denote; an output that does not parse as an integer (\<^verbatim>\<open>NaN\<close>) fails
  the match. When the output is a decimal integer, with or without a minus sign, and
  both integers have magnitude at most \<open>2^53\<close> (where JavaScript numbers are exact), the
  match is the comparison of the two integers; beyond it each number is rounded to the
  nearest double first, so that output \<^verbatim>\<open>9007199254740993\<close> fails against
  \<^verbatim>\<open>>9007199254740992\<close> and passes against \<^verbatim>\<open>=9007199254740992\<close>. Output \<^verbatim>\<open>5\<close> passes against \<^verbatim>\<open>>3\<close>, \<^verbatim>\<open>=5\<close> and
  \<^verbatim>\<open><10\<close> and fails against \<^verbatim>\<open>>10\<close>, \<^verbatim>\<open>=6\<close> and \<^verbatim>\<open><3\<close>; output \<^verbatim>\<open>abc\<close> fails against \<^verbatim>\<open>>3\<close>;
  \<^verbatim>\<open>>abc\<close> is not a comparator, and the matcher falls through to the substring rule (which
  does not find \<^verbatim>\<open>>abc\<close> in \<^verbatim>\<open>5\<close>).
\<close>

theorem numeric_comparator_matching:
  "(c \<in> set ''<>='' \<and> ds \<noteq> [] \<and> list_all isDigit ds \<longrightarrow>
      checkExpectation h output (c # ds) =
        Returns (if c = CHR ''>'' then number_greater (parseInt output) (toNumber (decimalValue ds))
                 else if c = CHR ''<'' then number_less (parseInt output) (toNumber (decimalValue ds))
                 else number_equal (parseInt output) (toNumber (decimalValue ds)))
      \<and> (parseInt output = NaN \<longrightarrow> checkExpectation h output (c # ds) = Returns False)
      \<and> (os \<noteq> [] \<and> list_all isDigit os
           \<and> decimalValue os \<le> 9007199254740992 \<and> decimalValue ds \<le> 9007199254740992 \<longrightarrow>
           checkExpectation h os (c # ds) =
             Returns (if c = CHR ''>'' then decimalValue os > decimalValue ds
                      else if c = CHR ''<'' then decimalValue os < decimalValue ds
                      else decimalValue os = decimalValue ds)
           \<and> checkExpectation h (CHR ''-'' # os) (c # ds) =
             Returns (if c = CHR ''>'' then - decimalValue os > decimalValue ds
                      else if c = CHR ''<'' then - decimalValue os < decimalValue ds
                      else - decimalValue os = decimalValue ds)))
   \<and> checkExpectation h ''5'' ''>3'' = Returns True
   \<and> checkExpectation h ''5'' ''>10'' = Returns False
   \<and> checkExpectation h ''5'' ''=5'' = Returns True
   \<and> checkExpectation h ''5'' ''=6'' = Returns False
   \<and> checkExpectation h ''5'' ''<10'' = Returns True
   \<and> checkExpectation h ''5'' ''<3'' = Returns False
   \<and> checkExpectation h ''abc'' ''>3'' = Returns False
   \<and> checkExpectation h ''9007199254740993'' ''>9007199254740992'' = Returns False
   \<and> checkExpectation h ''9007199254740993'' ''=9007199254740992'' = Returns True
   \<and> \<not> matchesComparator ''>abc''
   \<and> checkExpectation h ''5'' ''>abc'' = Returns (string_includes ''5'' ''>abc'')
   \<and> \<not> string_includes ''5'' ''>abc''"
proof -
  have general: "checkExpectation h output (c # ds) =
        Returns (if c = CHR ''>'' then number_greater (parseInt output) (toNumber (decimalValue ds))
                 else if c = CHR ''<'' then number_less (parseInt output) (toNumber (decimalValue ds))
                 else number_equal (parseInt output) (toNumber (decimalValue ds)))
      \<and> (parseInt output = NaN \<longrightarrow> checkExpectation h output (c # ds) = Returns False)
      \<and> (os \<noteq> [] \<and> list_all isDigit os
           \<and> decimalValue os \<le> 9007199254740992 \<and> decimalValue ds \<le> 9007199254740992 \<longrightarrow>
           checkExpectation h os (c # ds) =
             Returns (if c = CHR ''>'' then decimalValue os > decimalValue ds
                      else if c = CHR ''<'' then decimalValue os < decimalValue ds
                      else decimalValue os = decimalValue ds)
           \<and> checkExpectation h (CHR ''-'' # os) (c # ds) =
             Returns (if c = CHR ''>'' then - decimalValue os > decimalValue ds
                      else if c = CHR ''<'' then - decimalValue os < decimalValue ds
                      else - decimalValue os = decimalValue ds))"
    if c: "c \<in> set ''<>=''" and ds: "ds \<noteq> []" "list_all isDigit ds"
  proof (intro conjI impI)
    note eq = checkExpectation_comparator[OF c ds]
    show "checkExpectation h output (c # ds) =
        Returns (if c = CHR ''>'' then number_greater (parseInt output) (toNumber (decimalValue ds))
                 else if c = CHR ''<'' then number_less (parseInt output) (toNumber (decimalValue ds))
                 else number_equal (parseInt output) (toNumber (decimalValue ds)))"
      using c by (auto simp: eq numCompare_def)
    show "checkExpectation h output (c # ds) = Returns False" if "parseInt output = NaN"
      using that by (simp add: eq numCompare_def number_greater_def)
  next
    assume safe: "os \<noteq> [] \<and> list_all isDigit os
           \<and> decimalValue os \<le> 9007199254740992 \<and> decimalValue ds \<le> 9007199254740992"
    then have os: "os \<noteq> []" "list_all isDigit os" by simp_all
    have d: "toNumber (decimalValue ds) = Finite (decimalValue ds)"
      using safe decimalValue_nonneg[OF ds(2)] by (intro toNumber_exact) simp
    have p: "parseInt os = Finite (decimalValue os)"
      using safe decimalValue_nonneg[OF os(2)] parseInt_digits[OF os]
      by (simp add: toNumber_exact)
    have n: "parseInt (CHR ''-'' # os) = Finite (- decimalValue os)"
      using safe decimalValue_nonneg[OF os(2)] parseInt_minus_digits[OF os]
      by (simp add: toNumber_exact)
    show "checkExpectation h os (c # ds) =
             Returns (if c = CHR ''>'' then decimalValue os > decimalValue ds
                      else if c = CHR ''<'' then decimalValue os < decimalValue ds
                      else decimalValue os = decimalValue ds)"
      using c by (auto simp: checkExpectation_comparator[OF c ds] numCompare_def
          number_greater_def d p)
    show "checkExpectation h (CHR ''-'' # os) (c # ds) =
             Returns (if c = CHR ''>'' then - decimalValue os > decimalValue ds
                      else if c = CHR ''<'' then - decimalValue os < decimalValue ds
                      else - decimalValue os = decimalValue ds)"
      using c by (auto simp: checkExpectation_comparator[OF c ds] numCompare_def
          number_greater_def d n)
  qed
  have ex: "checkExpectation h ''5'' ''>3'' = Returns True"
    "checkExpectation h ''5'' ''>10'' = Returns False"
    "checkExpectation h ''5'' ''=5'' = Returns True"
    "checkExpectation h ''5'' ''=6'' = Returns False"
    "checkExpectation h ''5'' ''<10'' = Returns True"
    "checkExpectation h ''5'' ''<3'' = Returns False"
    "checkExpectation h ''abc'' ''>3'' = Returns False"
    "checkExpectation h ''9007199254740993'' ''>9007199254740992'' = Returns False"
    "checkExpectation h ''9007199254740993'' ''=9007199254740992'' = Returns True"
    by (simp_all add: matcher_defs)
  have ex3: "\<not> matchesComparator ''>abc''"
    by (simp add: matchesComparator_def isDigit_def)
  have ex4: "checkExpectation h ''5'' ''>abc'' = Returns (string_includes ''5'' ''>abc'')"
    by (simp add: checkExpectation_def startsWith_def endsWith_def matchesComparator_def
        isDigit_def)
  have ex5: "\<not> string_includes ''5'' ''>abc''"
    by (simp add: startsWith_def)
  from general ex ex3 ex4 ex5 show ?thesis by blast
qed

theorem numeric_comparator_matching_witness:
  "CHR ''<'' \<in> set ''<>='' \<and> ''42'' \<noteq> [] \<and> list_all isDigit ''42''
   \<and> ''7'' \<noteq> [] \<and> list_all isDigit ''7''
   \<and> decimalValue ''7'' = 7 \<and> decimalValue ''42'' = 42
   \<and> decimalValue ''7'' \<le> 9007199254740992 \<and> decimalValue ''42'' \<le> 9007199254740992
   \<and> checkExpectation counting_host ''7'' ''<42'' = Returns True
   \<and> checkExpectation counting_host ''-7'' ''<42'' = Returns True
   \<and> parseInt ''seven'' = NaN
   \<and> checkExpectation counting_host ''seven'' ''<42'' = Returns False"
proof -
  have hyp: "CHR ''<'' \<in> set ''<>='' \<and> ''42'' \<noteq> [] \<and> list_all isDigit ''42''"
    and os: "''7'' \<noteq> [] \<and> list_all isDigit ''7''"
    by (simp_all add: isDigit_def)
  have v: "decimalValue ''7'' = 7" "decimalValue ''42'' = 42"
    by (simp_all add: decimalValue_def)
  have p2: "parseInt ''seven'' = NaN"
    by (simp add: matcher_defs)
  from numeric_comparator_matching
         [of "CHR ''<''" "''42''" counting_host "''seven''" "''7''"] hyp os v p2
  show ?thesis by simp
qed

text \<open>
  What \<^const>\<open>FunctionVerifier_verify\<close> computes: the expected value, \<^verbatim>\<open>true\<close> when none is given,
  is compared with the returned value by strict equality; an error thrown by the
  predicate is reported as a failure; and when the predicate throws \<^verbatim>\<open>undefined\<close> the
  verifier itself throws.
\<close>

lemma FunctionVerifier_verify_returns:
  "fn w = (Returns result, w') \<Longrightarrow>
   map_option success (resolved (fst (FunctionVerifier_verify fn e w))) =
     Some (result = (if e = JUndefined then JBool True else e))"
  by (simp add: FunctionVerifier_verify_def createResult_def Let_def)

lemma FunctionVerifier_verify_throws:
  "fn w = (Throws msg, w') \<Longrightarrow>
   FunctionVerifier_verify fn e w =
     (Returns (createResult False (''Function threw error: '' @ msg) (JStr msg)
        (if e = JUndefined then JBool True else e)), w')"
  by (simp add: FunctionVerifier_verify_def Let_def)

lemma FunctionVerifier_verify_throws_undefined:
  "fn w = (ThrowsUndefined, w') \<Longrightarrow> FunctionVerifier_verify fn e w = (Throws noMessage, w')"
  by (simp add: FunctionVerifier_verify_def Let_def)

text \<open>
  Claim C7, at the input where the code departs from it: a predicate that returns the
  truthy value \<open>1\<close>, verified with no expected value, is reported as a failure, where
  the claim has a success (the expected value is the default and the returned value
  is truthy).
\<close>

theorem predicate_truthy_default_rejected:
  "truthy (JNum 1)
   \<and> map_option success
       (resolved (fst (FunctionVerifier_verify (\<lambda>w. (Returns (JNum 1), w)) JUndefined (w::nat))))
       = Some False
   \<and> map_option message
       (resolved (fst (FunctionVerifier_verify (\<lambda>w. (Returns (JNum 1), w)) JUndefined (w::nat))))
       = Some ''Function verification failed''"
  by (simp add: FunctionVerifier_verify_def createResult_def)

section \<open>Properties of the execution engine\<close>

subsection \<open>Fields after the elementary operations\<close>

lemma emit_fields [simp]:
  "this_status (emit e r) = this_status r" "this_steps (emit e r) = this_steps r"
  "world (emit e r) = world r" "verificationLog (emit e r) = verificationLog r"
  "emitted (emit e r) = emitted r @ [e]" "ran (emit e r) = ran r" "history (emit e r) = history r"
  by (simp_all add: emit_def)

lemma observe_fields [simp]:
  "this_status (observe p r) = this_status r" "this_steps (observe p r) = this_steps r"
  "world (observe p r) = world r" "verificationLog (observe p r) = verificationLog r"
  "emitted (observe p r) = emitted r" "ran (observe p r) = ran r @ [p]"
  "history (observe p r) = history r"
  by (simp_all add: observe_def)

lemma set_step_status_fields [simp]:
  "this_status (set_step_status sid st r) = this_status r"
  "this_steps (set_step_status sid st r) =
     AList.map_entry sid (\<lambda>s. s\<lparr>step_status := st\<rparr>) (this_steps r)"
  "world (set_step_status sid st r) = world r"
  "verificationLog (set_step_status sid st r) = verificationLog r"
  "emitted (set_step_status sid st r) = emitted r" "ran (set_step_status sid st r) = ran r"
  "history (set_step_status sid st r) = history r @ [(sid, st)]"
  by (simp_all add: set_step_status_def)

lemma set_step_result_fields [simp]:
  "this_status (set_step_result sid res r) = this_status r"
  "this_steps (set_step_result sid res r) =
     AList.map_entry sid (\<lambda>s. s\<lparr>step_result := Some res\<rparr>) (this_steps r)"
  "world (set_step_result sid res r) = world r"
  "verificationLog (set_step_result sid res r) = verificationLog r"
  "emitted (set_step_result sid res r) = emitted r" "ran (set_step_result sid res r) = ran r"
  "history (set_step_result sid res r) = history r"
  by (simp_all add: set_step_result_def)

lemma failure_fields [simp]:
  "res_success (failure l m r) = False" "res_status (failure l m r) = IntentFailed"
  "res_steps (failure l m r) = map snd (this_steps r)" "failedStep (failure l m r) = Some l"
  "failureReason (failure l m r) = Some m" "res_verificationLog (failure l m r) = verificationLog r"
  by (simp_all add: failure_def)

lemma and_then_simps [simp]:
  "and_then (Next r) g = g r" "and_then (Return x r) g = Return x r"
  "and_then (Raise m r) g = Raise m r"
  by (simp_all add: and_then_def)

lemma map_fst_map_entry [simp]: "map fst (AList.map_entry k f xs) = map fst xs"
  by (induct xs) auto

lemma start_run_fields [simp]:
  "this_steps (start_run I w) = steps I" "ran (start_run I w) = []"
  "history (start_run I w) = []" "world (start_run I w) = w"
  "emitted (start_run I w) = [EvStart (goal I) (length (stepOrder I))]"
  "verificationLog (start_run I w) = []"
  by (simp_all add: start_run_def)

lemma complete_fields [simp]:
  "returned (complete r) \<noteq> None" "map_option res_success (returned (complete r)) = Some True"
  "ran (final (complete r)) = ran r" "this_steps (final (complete r)) = this_steps r"
  "history (final (complete r)) = history r"
  by (simp_all add: complete_def Let_def)

subsection \<open>What the loops over the contract leave alone\<close>

lemma check_preconditions_frame:
  "this_steps (final (check_preconditions h ps r)) = this_steps r \<and>
   history (final (check_preconditions h ps r)) = history r"
  by (induction ps arbitrary: r) (auto simp: Let_def split: prod.splits outcome.splits)

lemma check_postconditions_frame:
  "this_steps (final (check_postconditions h ps r)) = this_steps r \<and>
   history (final (check_postconditions h ps r)) = history r"
  by (induction ps arbitrary: r) (auto simp: Let_def split: prod.splits outcome.splits)

lemma check_invariants_after_frame:
  "this_steps (final (check_invariants_after h is s r)) = this_steps r \<and>
   history (final (check_invariants_after h is s r)) = history r"
  by (induction "is" arbitrary: r) (auto simp: Let_def split: prod.splits outcome.splits)

subsection \<open>The keys of the step map, and throwing\<close>

lemma final_and_then_keys:
  assumes "map fst (this_steps (final fl)) = ks"
    and "\<And>r'. fl = Next r' \<Longrightarrow> map fst (this_steps (final (g r'))) = map fst (this_steps r')"
  shows "map fst (this_steps (final (and_then fl g))) = ks"
  using assms by (cases fl) auto

lemma check_invariants_before_keys:
  "map fst (this_steps (final (check_invariants_before h is sid s r))) = map fst (this_steps r)"
  by (induction "is" arbitrary: r) (auto simp: Let_def split: prod.splits outcome.splits)

lemma step_catch_keys:
  "map fst (this_steps (final (step_catch I sid s err r))) = map fst (this_steps r)"
  by (simp add: step_catch_def Let_def split: option.splits)

lemma step_verified_keys:
  "map fst (this_steps (final (step_verified I sid s result r))) = map fst (this_steps r)"
  by (simp add: step_verified_def Let_def)

lemma run_step_keys:
  "map fst (this_steps (final (run_step h I sid s r))) = map fst (this_steps r)"
  by (simp add: run_step_def Let_def step_catch_keys step_verified_keys
      split: option.splits prod.splits outcome.splits)

lemma execute_step_keys:
  "map fst (this_steps (final (execute_step h I sid r))) = map fst (this_steps r)"
proof (cases "map_of (this_steps r) sid")
  case None
  then show ?thesis by (simp add: execute_step_def)
next
  case (Some s)
  show ?thesis
  proof (cases "case dependencies s of None \<Rightarrow> False | Some deps \<Rightarrow> length (unmetDeps r deps) > 0")
    case True
    with Some show ?thesis by (simp add: execute_step_def)
  next
    case False
    have before: "map fst (this_steps (final
        (case invariants (contract I) of None \<Rightarrow> Next r
         | Some invs \<Rightarrow> check_invariants_before h invs sid s r))) = map fst (this_steps r)"
      by (cases "invariants (contract I)") (simp_all add: check_invariants_before_keys)
    have after: "\<And>r2. map fst (this_steps (final
        (case invariants (contract I) of None \<Rightarrow> Next r2
         | Some invs \<Rightarrow> check_invariants_after h invs s r2))) = map fst (this_steps r2)"
      by (cases "invariants (contract I)") (simp_all add: check_invariants_after_frame)
    have mid: "\<And>r1. map fst (this_steps (final
        (run_step h I sid s (emit (EvStepStart (step_name s)) (set_step_status sid Running r1)))))
         = map fst (this_steps r1)"
      by (simp add: run_step_keys)
    have "map fst (this_steps (final
        (and_then (case invariants (contract I) of None \<Rightarrow> Next r
                   | Some invs \<Rightarrow> check_invariants_before h invs sid s r)
           (\<lambda>r1. and_then (run_step h I sid s
                   (emit (EvStepStart (step_name s)) (set_step_status sid Running r1)))
              (\<lambda>r2. case invariants (contract I) of None \<Rightarrow> Next r2
                     | Some invs \<Rightarrow> check_invariants_after h invs s r2))))) = map fst (this_steps r)"
      by (intro final_and_then_keys before mid after)
    with Some False show ?thesis
      by (simp add: execute_step_def)
  qed
qed

lemma execute_steps_keys:
  "map fst (this_steps (final (execute_steps h I sids r))) = map fst (this_steps r)"
proof (induction sids arbitrary: r)
  case Nil
  show ?case by simp
next
  case (Cons sid sids)
  show ?case
    by (simp del: and_then_simps) (intro final_and_then_keys execute_step_keys Cons.IH)
qed

lemma and_then_assoc: "and_then (and_then f g) k = and_then f (\<lambda>r. and_then (g r) k)"
  by (cases f) auto

lemma execute_phases: "execute h I w = and_then (phases h I w) complete"
  by (simp add: execute_def phases_def and_then_assoc)

subsection \<open>Soundness of the verdict\<close>

lemma all_passed_append [simp]: "all_passed (ps @ qs) = (all_passed ps \<and> all_passed qs)"
  by (auto simp: all_passed_def)

lemma all_passed_Cons [simp]:
  "all_passed (p # ps) = ((decisive p \<longrightarrow> passed p) \<and> all_passed ps)"
  by (auto simp: all_passed_def)

lemma all_passed_Nil [simp]: "all_passed []"
  by (simp add: all_passed_def)

lemma verdict_sound_simps [simp]:
  "verdict_sound ps (Next r') = (all_passed ps \<longrightarrow> all_passed (ran r'))"
  "verdict_sound ps (Return x r') = (\<not> res_success x \<and> \<not> all_passed (ran r'))"
  "verdict_sound ps (Raise m r')"
  by (simp_all add: verdict_sound_def)

lemma verdict_sound_and_then:
  assumes "verdict_sound ps fl" and "\<And>r'. fl = Next r' \<Longrightarrow> verdict_sound (ran r') (g r')"
  shows "verdict_sound ps (and_then fl g)"
proof (cases fl)
  case (Next r')
  with assms show ?thesis by (cases "g r'") auto
qed (use assms in auto)

lemma check_preconditions_sound: "verdict_sound (ran r) (check_preconditions h ps r)"
proof (induction ps arbitrary: r)
  case Nil
  show ?case by simp
next
  case (Cons p ps)
  obtain v w' where v: "verifyCheck h p (world r) = (v, w')"
    by (cases "verifyCheck h p (world r)")
  show ?case
  proof (cases v)
    case (Returns result)
    show ?thesis
    proof (cases "\<not> success result \<and> critical p \<noteq> Some False")
      case True
      with v Returns show ?thesis by (simp add: Let_def)
    next
      case False
      let ?r1 = "observe (PreconditionRan (critical p) (success result))
                      (r\<lparr>world := w', verificationLog := verificationLog r @ [result]\<rparr>)"
      have "verdict_sound (ran ?r1) (check_preconditions h ps ?r1)" by (rule Cons.IH)
      with False v Returns show ?thesis
        by (cases "check_preconditions h ps ?r1") (auto simp: Let_def)
    qed
  qed (use v in simp_all)
qed

lemma check_postconditions_sound: "verdict_sound (ran r) (check_postconditions h ps r)"
proof (induction ps arbitrary: r)
  case Nil
  show ?case by simp
next
  case (Cons p ps)
  obtain v w' where v: "verifyCheck h p (world r) = (v, w')"
    by (cases "verifyCheck h p (world r)")
  show ?case
  proof (cases v)
    case (Returns result)
    show ?thesis
    proof (cases "\<not> success result \<and> critical p \<noteq> Some False")
      case True
      with v Returns show ?thesis by (simp add: Let_def)
    next
      case False
      let ?r1 = "observe (PostconditionRan (critical p) (success result))
                      (r\<lparr>world := w', verificationLog := verificationLog r @ [result]\<rparr>)"
      have "verdict_sound (ran ?r1) (check_postconditions h ps ?r1)" by (rule Cons.IH)
      with False v Returns show ?thesis
        by (cases "check_postconditions h ps ?r1") (auto simp: Let_def)
    qed
  qed (use v in simp_all)
qed

lemma check_invariants_before_sound:
  "verdict_sound (ran r) (check_invariants_before h is sid s r)"
proof (induction "is" arbitrary: r)
  case Nil
  show ?case by simp
next
  case (Cons i "is")
  obtain v w' where v: "verifyCheck h i (world r) = (v, w')"
    by (cases "verifyCheck h i (world r)")
  show ?case
  proof (cases v)
    case (Returns result)
    show ?thesis
    proof (cases "success result")
      case False
      with v Returns show ?thesis by (simp add: Let_def)
    next
      case True
      let ?r1 = "observe (InvariantRan (critical i) (success result)) (r\<lparr>world := w'\<rparr>)"
      have "verdict_sound (ran ?r1) (check_invariants_before h is sid s ?r1)" by (rule Cons.IH)
      with True v Returns show ?thesis
        by (cases "check_invariants_before h is sid s ?r1") (auto simp: Let_def)
    qed
  qed (use v in simp_all)
qed

lemma check_invariants_after_sound: "verdict_sound (ran r) (check_invariants_after h is s r)"
proof (induction "is" arbitrary: r)
  case Nil
  show ?case by simp
next
  case (Cons i "is")
  obtain v w' where v: "verifyCheck h i (world r) = (v, w')"
    by (cases "verifyCheck h i (world r)")
  show ?case
  proof (cases v)
    case (Returns result)
    show ?thesis
    proof (cases "success result")
      case False
      with v Returns show ?thesis by (simp add: Let_def)
    next
      case True
      let ?r1 = "observe (InvariantRan (critical i) (success result)) (r\<lparr>world := w'\<rparr>)"
      have "verdict_sound (ran ?r1) (check_invariants_after h is s ?r1)" by (rule Cons.IH)
      with True v Returns show ?thesis
        by (cases "check_invariants_after h is s ?r1") (auto simp: Let_def)
    qed
  qed (use v in simp_all)
qed

lemma step_catch_sound:
  "stopOnFailure (options I) = Some True \<Longrightarrow> \<not> all_passed (ran r) \<Longrightarrow>
   verdict_sound ps (step_catch I sid s err r)"
  by (simp add: step_catch_def Let_def split: option.splits)

lemma step_verified_sound:
  "stopOnFailure (options I) = Some True \<Longrightarrow> ran r = ps @ [VerifyRan sid (success result)] \<Longrightarrow>
   verdict_sound ps (step_verified I sid s result r)"
  by (simp add: step_verified_def Let_def)

text \<open>The outcome of the action of a step, with the state after it.\<close>

lemma run_step_unfold:
  "run_step h I sid s r =
     (case (case action (definition_of s) of
              None \<Rightarrow> (Returns (), r)
            | Some act \<Rightarrow>
                (case act (world r) of (a, w') \<Rightarrow>
                   (a, observe (ActionRan sid (a = Returns ())) (r\<lparr>world := w'\<rparr>))))
      of (Throws msg, r1) \<Rightarrow> step_catch I sid s (Some msg) r1
       | (ThrowsUndefined, r1) \<Rightarrow> step_catch I sid s None r1
       | (Returns u, r1) \<Rightarrow>
           (case verifyStep h (definition_of s) (world r1) of
              (Throws msg, w') \<Rightarrow>
                step_catch I sid s (Some msg) (observe (VerifyRan sid False) (r1\<lparr>world := w'\<rparr>))
            | (ThrowsUndefined, w') \<Rightarrow>
                step_catch I sid s None (observe (VerifyRan sid False) (r1\<lparr>world := w'\<rparr>))
            | (Returns result, w') \<Rightarrow>
                step_verified I sid s result
                  (observe (VerifyRan sid (success result)) (r1\<lparr>world := w'\<rparr>))))"
  by (simp add: run_step_def Let_def)

text \<open>
  The ways through the try statement: the action throws, or it returns (or there is
  none) and the verification throws or returns.
\<close>

lemma run_step_cases:
  obtains (action_throws) err r1 where
      "run_step h I sid s r = step_catch I sid s err r1"
      "ran r1 = ran r @ [ActionRan sid False]"
      "this_steps r1 = this_steps r" "history r1 = history r" "emitted r1 = emitted r"
      "verificationLog r1 = verificationLog r" "this_status r1 = this_status r"
    | (verify_throws) err r1 acts where
      "run_step h I sid s r = step_catch I sid s err r1"
      "ran r1 = ran r @ acts @ [VerifyRan sid False]" "acts = [] \<or> acts = [ActionRan sid True]"
      "this_steps r1 = this_steps r" "history r1 = history r" "emitted r1 = emitted r"
      "verificationLog r1 = verificationLog r" "this_status r1 = this_status r"
    | (verified) result r1 acts where
      "run_step h I sid s r = step_verified I sid s result r1"
      "ran r1 = ran r @ acts @ [VerifyRan sid (success result)]"
      "acts = [] \<or> acts = [ActionRan sid True]"
      "this_steps r1 = this_steps r" "history r1 = history r" "emitted r1 = emitted r"
      "verificationLog r1 = verificationLog r" "this_status r1 = this_status r"
proof -
  define a where "a = (case action (definition_of s) of
              None \<Rightarrow> (Returns (), r)
            | Some act \<Rightarrow>
                (case act (world r) of (a, w') \<Rightarrow>
                   (a, observe (ActionRan sid (a = Returns ())) (r\<lparr>world := w'\<rparr>))))"
  obtain ao r0 where a: "a = (ao, r0)" by (cases a)
  have r0: "this_steps r0 = this_steps r" "history r0 = history r" "emitted r0 = emitted r"
    "verificationLog r0 = verificationLog r" "this_status r0 = this_status r"
    using a unfolding a_def by (auto split: option.splits prod.splits)
  have ran0: "(ao = Returns () \<and> (ran r0 = ran r \<or> ran r0 = ran r @ [ActionRan sid True]))
      \<or> (ao \<noteq> Returns () \<and> ran r0 = ran r @ [ActionRan sid False])"
    using a unfolding a_def by (auto split: option.splits prod.splits)
  have run: "run_step h I sid s r =
     (case (ao, r0) of (Throws msg, r1) \<Rightarrow> step_catch I sid s (Some msg) r1
       | (ThrowsUndefined, r1) \<Rightarrow> step_catch I sid s None r1
       | (Returns u, r1) \<Rightarrow>
           (case verifyStep h (definition_of s) (world r1) of
              (Throws msg, w') \<Rightarrow>
                step_catch I sid s (Some msg) (observe (VerifyRan sid False) (r1\<lparr>world := w'\<rparr>))
            | (ThrowsUndefined, w') \<Rightarrow>
                step_catch I sid s None (observe (VerifyRan sid False) (r1\<lparr>world := w'\<rparr>))
            | (Returns result, w') \<Rightarrow>
                step_verified I sid s result
                  (observe (VerifyRan sid (success result)) (r1\<lparr>world := w'\<rparr>))))"
    unfolding run_step_unfold a_def[symmetric] a ..
  show thesis
  proof (cases ao)
    case (Throws msg)
    with run ran0 r0 show thesis by (intro action_throws[of "Some msg" r0]) simp_all
  next
    case ThrowsUndefined
    with run ran0 r0 show thesis by (intro action_throws[of None r0]) simp_all
  next
    case (Returns u)
    with ran0 obtain acts where acts: "ran r0 = ran r @ acts" "acts = [] \<or> acts = [ActionRan sid True]"
      by auto
    obtain v w' where v: "verifyStep h (definition_of s) (world r0) = (v, w')"
      by (cases "verifyStep h (definition_of s) (world r0)")
    show thesis
    proof (cases v)
      case R: (Returns result)
      with run Returns v acts r0 show thesis
        by (intro verified[of result "observe (VerifyRan sid (success result)) (r0\<lparr>world := w'\<rparr>)" acts])
           simp_all
    next
      case (Throws msg)
      with run Returns v acts r0 show thesis
        by (intro verify_throws[of "Some msg" "observe (VerifyRan sid False) (r0\<lparr>world := w'\<rparr>)" acts])
           simp_all
    next
      case ThrowsUndefined
      with run Returns v acts r0 show thesis
        by (intro verify_throws[of None "observe (VerifyRan sid False) (r0\<lparr>world := w'\<rparr>)" acts])
           simp_all
    qed
  qed
qed

lemma run_step_sound:
  assumes stop: "stopOnFailure (options I) = Some True"
  shows "verdict_sound (ran r) (run_step h I sid s r)"
proof (cases rule: run_step_cases[of h I sid s r])
  case (action_throws err r1)
  then show ?thesis by (simp add: step_catch_sound[OF stop])
next
  case (verify_throws err r1 acts)
  then show ?thesis by (simp add: step_catch_sound[OF stop])
next
  case (verified result r1 acts)
  from verified(3) have "all_passed acts" by auto
  with verified(1,2) show ?thesis
    by (simp add: step_verified_def Let_def stop)
qed

lemma execute_step_sound:
  assumes stop: "stopOnFailure (options I) = Some True"
  shows "verdict_sound (ran r) (execute_step h I sid r)"
proof (cases "map_of (this_steps r) sid")
  case None
  then show ?thesis by (simp add: execute_step_def)
next
  case (Some s)
  show ?thesis
  proof (cases "case dependencies s of None \<Rightarrow> False | Some deps \<Rightarrow> length (unmetDeps r deps) > 0")
    case True
    with Some show ?thesis by (simp add: execute_step_def)
  next
    case False
    have before: "verdict_sound (ran r)
        (case invariants (contract I) of None \<Rightarrow> Next r
         | Some invs \<Rightarrow> check_invariants_before h invs sid s r)"
      by (cases "invariants (contract I)") (simp_all add: check_invariants_before_sound)
    have after: "\<And>r2. verdict_sound (ran r2)
        (case invariants (contract I) of None \<Rightarrow> Next r2
         | Some invs \<Rightarrow> check_invariants_after h invs s r2)"
      by (cases "invariants (contract I)") (simp_all add: check_invariants_after_sound)
    have mid: "\<And>r1. verdict_sound (ran r1)
        (run_step h I sid s (emit (EvStepStart (step_name s)) (set_step_status sid Running r1)))"
      using run_step_sound[OF stop, of "emit (EvStepStart (step_name s)) (set_step_status sid Running r1)" for r1]
      by simp
    from Some False show ?thesis
      unfolding execute_step_def
      by (simp del: and_then_simps) (intro verdict_sound_and_then before mid after)
  qed
qed

lemma execute_steps_sound:
  assumes stop: "stopOnFailure (options I) = Some True"
  shows "verdict_sound (ran r) (execute_steps h I sids r)"
proof (induction sids arbitrary: r)
  case Nil
  show ?case by simp
next
  case (Cons sid sids)
  show ?case
    by (simp del: and_then_simps) (intro verdict_sound_and_then execute_step_sound[OF stop] Cons.IH)
qed

lemma phases_sound:
  assumes stop: "stopOnFailure (options I) = Some True"
  shows "verdict_sound [] (phases h I w)"
proof -
  have a: "verdict_sound [] (case preconditions (contract I) of
                 None \<Rightarrow> Next (start_run I w)
               | Some ps \<Rightarrow> check_preconditions h ps (emit (EvPhase ''preconditions'') (start_run I w)))"
    using check_preconditions_sound[of "emit (EvPhase ''preconditions'') (start_run I w)" h]
    by (cases "preconditions (contract I)") simp_all
  have b: "\<And>r1. verdict_sound (ran r1) (execute_steps h I (stepOrder I) (emit (EvPhase ''execution'') r1))"
    using execute_steps_sound[OF stop, of "emit (EvPhase ''execution'') r1" for r1] by simp
  have c: "\<And>r2. verdict_sound (ran r2) (case postconditions (contract I) of
                  None \<Rightarrow> Next r2
                | Some qs \<Rightarrow> check_postconditions h qs (emit (EvPhase ''postconditions'') r2))"
    using check_postconditions_sound[of "emit (EvPhase ''postconditions'') r2" h for r2]
    by (cases "postconditions (contract I)") simp_all
  show ?thesis
    unfolding phases_def by (intro verdict_sound_and_then a b c)
qed

subsection \<open>What has failed when \<^verbatim>\<open>execute\<close> throws\<close>

lemma raise_sound_simps [simp]:
  "raise_sound (Next r)" "raise_sound (Return x r)"
  "raise_sound (Raise m r) = (\<not> all_passed (ran r))"
  by (simp_all add: raise_sound_def)

lemma raise_sound_and_then:
  assumes "raise_sound fl" and "\<And>r'. fl = Next r' \<Longrightarrow> raise_sound (g r')"
  shows "raise_sound (and_then fl g)"
  using assms by (cases fl) auto

lemma check_preconditions_raise_sound: "raise_sound (check_preconditions h ps r)"
  by (induction ps arbitrary: r) (auto simp: Let_def split: prod.splits outcome.splits)

lemma check_postconditions_raise_sound: "raise_sound (check_postconditions h ps r)"
  by (induction ps arbitrary: r) (auto simp: Let_def split: prod.splits outcome.splits)

lemma check_invariants_before_raise_sound: "raise_sound (check_invariants_before h is sid s r)"
  by (induction "is" arbitrary: r) (auto simp: Let_def split: prod.splits outcome.splits)

lemma check_invariants_after_raise_sound: "raise_sound (check_invariants_after h is s r)"
  by (induction "is" arbitrary: r) (auto simp: Let_def split: prod.splits outcome.splits)

lemma step_catch_raise_sound:
  "\<not> all_passed (ran r) \<Longrightarrow> raise_sound (step_catch I sid s err r)"
  by (simp add: step_catch_def Let_def split: option.splits)

lemma run_step_raise_sound: "raise_sound (run_step h I sid s r)"
proof (cases rule: run_step_cases[of h I sid s r])
  case (action_throws err r1)
  then show ?thesis by (simp add: step_catch_raise_sound)
next
  case (verify_throws err r1 acts)
  then show ?thesis by (simp add: step_catch_raise_sound)
next
  case (verified result r1 acts)
  then show ?thesis by (simp add: step_verified_def Let_def)
qed

lemma execute_step_raise_sound:
  assumes "sid \<in> set (map fst (this_steps r))"
  shows "raise_sound (execute_step h I sid r)"
proof -
  from assms obtain s where Some: "map_of (this_steps r) sid = Some s"
    by (cases "map_of (this_steps r) sid") (auto simp: map_of_eq_None_iff)
  show ?thesis
  proof (cases "case dependencies s of None \<Rightarrow> False | Some deps \<Rightarrow> length (unmetDeps r deps) > 0")
    case True
    with Some show ?thesis by (simp add: execute_step_def)
  next
    case False
    have before: "raise_sound
        (case invariants (contract I) of None \<Rightarrow> Next r
         | Some invs \<Rightarrow> check_invariants_before h invs sid s r)"
      by (cases "invariants (contract I)") (simp_all add: check_invariants_before_raise_sound)
    have after: "\<And>r2. raise_sound
        (case invariants (contract I) of None \<Rightarrow> Next r2
         | Some invs \<Rightarrow> check_invariants_after h invs s r2)"
      by (cases "invariants (contract I)") (simp_all add: check_invariants_after_raise_sound)
    from Some False show ?thesis
      unfolding execute_step_def
      by (simp del: and_then_simps) (intro raise_sound_and_then before run_step_raise_sound after)
  qed
qed

lemma execute_steps_raise_sound:
  "set sids \<subseteq> set (map fst (this_steps r)) \<Longrightarrow> raise_sound (execute_steps h I sids r)"
proof (induction sids arbitrary: r)
  case Nil
  show ?case by simp
next
  case (Cons sid sids)
  have a: "raise_sound (execute_step h I sid r)"
    using Cons.prems by (intro execute_step_raise_sound) simp
  have b: "raise_sound (execute_steps h I sids r')" if "execute_step h I sid r = Next r'" for r'
  proof -
    have "map fst (this_steps r') = map fst (this_steps r)"
      using execute_step_keys[of h I sid r] that by simp
    with Cons.prems show ?thesis by (intro Cons.IH) simp
  qed
  from a b show ?case by (simp del: and_then_simps) (intro raise_sound_and_then)
qed

lemma phases_raise_sound:
  assumes keys: "set (stepOrder I) \<subseteq> fst ` set (steps I)"
  shows "raise_sound (phases h I w)"
proof -
  let ?A = "case preconditions (contract I) of
                 None \<Rightarrow> Next (start_run I w)
               | Some ps \<Rightarrow> check_preconditions h ps (emit (EvPhase ''preconditions'') (start_run I w))"
  have a: "raise_sound ?A"
    by (cases "preconditions (contract I)") (simp_all add: check_preconditions_raise_sound)
  have a': "this_steps r1 = steps I" if "?A = Next r1" for r1
  proof (cases "preconditions (contract I)")
    case None
    with that show ?thesis by auto
  next
    case (Some ps)
    with that have "check_preconditions h ps (emit (EvPhase ''preconditions'') (start_run I w)) = Next r1"
      by simp
    with check_preconditions_frame[of h ps "emit (EvPhase ''preconditions'') (start_run I w)"]
    show ?thesis by simp
  qed
  have b: "raise_sound (execute_steps h I (stepOrder I) (emit (EvPhase ''execution'') r1))"
    if "?A = Next r1" for r1
    using keys a'[OF that] by (intro execute_steps_raise_sound) simp
  have c: "\<And>r2. raise_sound (case postconditions (contract I) of
                  None \<Rightarrow> Next r2
                | Some qs \<Rightarrow> check_postconditions h qs (emit (EvPhase ''postconditions'') r2))"
    by (cases "postconditions (contract I)") (simp_all add: check_postconditions_raise_sound)
  show ?thesis
    unfolding phases_def by (intro raise_sound_and_then a b c)
qed

lemmas builder_defs = new_Intent_def no_options_def spread_def requires_def ensures_def
  invariant_def step_def push_def verified_by_def

lemmas engine_defs = execute_def start_run_def complete_def execute_step_def run_step_def
  step_verified_def step_catch_def verifyStep_def verifyCheck_def unmetDeps_def
  CommandVerifier_verify_string_def CommandVerifier_verify_def commandCatch_def
  FunctionVerifier_verify_def createResult_def counting_host_def Let_def trim_def
  trimStart_def trimEnd_def strip.simps whiteSpace_def startsWith_def

text \<open>
  Every intent made by the constructor and the builder methods has a step order that
  names steps of its step map.
\<close>

lemma new_Intent_order: "set (stepOrder (new_Intent ident g opts)) \<subseteq> fst ` set (steps (new_Intent ident g opts))"
  by (simp add: new_Intent_def)

lemma step_order:
  "set (stepOrder I) \<subseteq> fst ` set (steps I) \<Longrightarrow>
   set (stepOrder (step stepId nm d I)) \<subseteq> fst ` set (steps (step stepId nm d I))"
  by (auto simp: step_def Let_def dom_update)

lemma contract_builders_order:
  "stepOrder (requires c e I) = stepOrder I \<and> steps (requires c e I) = steps I"
  "stepOrder (ensures c e I) = stepOrder I \<and> steps (ensures c e I) = steps I"
  "stepOrder (invariant c e I) = stepOrder I \<and> steps (invariant c e I) = steps I"
  by (simp_all add: requires_def ensures_def invariant_def Let_def)

text \<open>
  Claim C1, as stated, at an input where it fails: an intent whose only check is a
  precondition marked \<^verbatim>\<open>critical: false\<close> that evaluates to false. \<^verbatim>\<open>execute\<close> returns
  \<^verbatim>\<open>success = true\<close> although a precondition that was evaluated did not pass.
\<close>

theorem success_despite_failed_noncritical_precondition:
  "\<not> ((map_option res_success (returned (execute counting_host lenient_intent 0)) = Some True)
       \<longleftrightarrow> every_check_passed (ran (final (execute counting_host lenient_intent 0))))"
  by (simp add: lenient_intent_def always_false_def builder_defs engine_defs every_check_passed_def)

text \<open>
  Claim C1, amended. For an intent with \<^verbatim>\<open>stopOnFailure\<close> true whose step order names
  steps of the step map (as \<^verbatim>\<open>Intent.step\<close> builds it), \<^verbatim>\<open>execute\<close> returns \<^verbatim>\<open>success = true\<close>
  if and only if every decisive check that ran passed: every precondition and
  postcondition evaluated, except that one marked \<^verbatim>\<open>critical: false\<close> may return a failing
  verdict; every invariant check performed; and every action and verification of a step
  that was run. A check that throws instead of returning a verdict has not passed, and
  when \<^verbatim>\<open>execute\<close> returns no result it has thrown, after such a check or after an action
  or a verification that did not pass. In particular success is never reported when a
  critical check that ran failed.
\<close>

theorem execute_success_iff_decisive_checks_passed:
  assumes stop: "stopOnFailure (options I) = Some True"
    and keys: "set (stepOrder I) \<subseteq> fst ` set (steps I)"
  shows "((map_option res_success (returned (execute h I w)) = Some True) \<longleftrightarrow>
            all_passed (ran (final (execute h I w))))
       \<and> (returned (execute h I w) = None \<longrightarrow>
            (\<exists>m r. execute h I w = Raise m r \<and> \<not> all_passed (ran r)))"
proof (cases "phases h I w")
  case (Next r)
  with phases_sound[OF stop, of h w] show ?thesis
    by (simp add: execute_phases)
next
  case (Return x r)
  with phases_sound[OF stop, of h w] show ?thesis
    by (simp add: execute_phases)
next
  case (Raise m r)
  with phases_raise_sound[OF keys, of h w] show ?thesis
    by (simp add: execute_phases)
qed

theorem execute_success_iff_decisive_checks_passed_witness:
  "stopOnFailure (options contract_intent) = Some True
   \<and> set (stepOrder contract_intent) \<subseteq> fst ` set (steps contract_intent)
   \<and> map_option res_success (returned (execute counting_host contract_intent 0)) = Some True
   \<and> all_passed (ran (final (execute counting_host contract_intent 0)))
   \<and> stopOnFailure (options dependent_intent) = Some True
   \<and> set (stepOrder dependent_intent) \<subseteq> fst ` set (steps dependent_intent)
   \<and> map_option res_success (returned (execute counting_host dependent_intent 0)) = Some False
   \<and> \<not> all_passed (ran (final (execute counting_host dependent_intent 0)))
   \<and> stopOnFailure (options rejecting_intent) = Some True
   \<and> set (stepOrder rejecting_intent) \<subseteq> fst ` set (steps rejecting_intent)
   \<and> returned (execute counting_host rejecting_intent 0) = None
   \<and> \<not> all_passed (ran (final (execute counting_host rejecting_intent 0)))
   \<and> (\<exists>m r. execute counting_host rejecting_intent 0 = Raise m r \<and> \<not> all_passed (ran r))"
proof -
  have a: "stopOnFailure (options contract_intent) = Some True"
    and b: "set (stepOrder contract_intent) \<subseteq> fst ` set (steps contract_intent)"
    by (simp_all add: contract_intent_def builder_defs)
  have c: "map_option res_success (returned (execute counting_host contract_intent 0)) = Some True"
    by (simp add: contract_intent_def builder_defs engine_defs)
  have a2: "stopOnFailure (options dependent_intent) = Some True"
    and b2: "set (stepOrder dependent_intent) \<subseteq> fst ` set (steps dependent_intent)"
    by (simp_all add: dependent_intent_def builder_defs)
  have c2: "map_option res_success (returned (execute counting_host dependent_intent 0)) = Some False"
    by (simp add: dependent_intent_def builder_defs engine_defs)
  have a3: "stopOnFailure (options rejecting_intent) = Some True"
    and b3: "set (stepOrder rejecting_intent) \<subseteq> fst ` set (steps rejecting_intent)"
    by (simp_all add: rejecting_intent_def builder_defs)
  have c3: "returned (execute counting_host rejecting_intent 0) = None"
    by (simp add: rejecting_intent_def always_rejects_def builder_defs engine_defs)
  from execute_success_iff_decisive_checks_passed[OF a b, of counting_host 0]
       execute_success_iff_decisive_checks_passed[OF a2 b2, of counting_host 0]
       execute_success_iff_decisive_checks_passed[OF a3 b3, of counting_host 0]
       a b c a2 b2 c2 a3 b3 c3
  show ?thesis by simp
qed

text \<open>
  Claim C2, at the input where the code departs from it: with \<^verbatim>\<open>stopOnFailure\<close> false, a
  first step whose verification fails and a second step whose verification passes.
  Both steps are attempted, the first ends \<^verbatim>\<open>failed\<close>, and \<^verbatim>\<open>execute\<close> returns
  \<^verbatim>\<open>success = true\<close>, where the claim has \<^verbatim>\<open>success = false\<close>.
\<close>

theorem continue_on_failure_reports_success:
  "stopOnFailure (options continue_intent) = Some False
   \<and> ran (final (execute counting_host continue_intent 0))
       = [VerifyRan ''s1'' False, VerifyRan ''s2'' True]
   \<and> map (\<lambda>(k, s). (k, step_status s)) (this_steps (final (execute counting_host continue_intent 0)))
       = [(''s1'', Failed), (''s2'', Completed)]
   \<and> map_option res_success (returned (execute counting_host continue_intent 0)) = Some True"
  by (simp add: continue_intent_def builder_defs engine_defs)

subsection \<open>A failing invariant aborts the run\<close>

lemma invariant_abort_and_then:
  assumes "invariant_abort ps fl" and "\<And>r'. fl = Next r' \<Longrightarrow> invariant_abort (ran r') (g r')"
  shows "invariant_abort ps (and_then fl g)"
proof (cases fl)
  case (Next r')
  with assms(1) assms(2)[OF Next] show ?thesis
    unfolding invariant_abort_def by simp blast
qed (use assms in \<open>auto simp: invariant_abort_def\<close>)

lemma invariant_abort_Next [simp]:
  "invariant_abort ps (Next r) = (\<forall>c. InvariantRan c False \<in> set (ran r) \<longrightarrow> InvariantRan c False \<in> set ps)"
  by (simp add: invariant_abort_def)

lemma check_preconditions_invariant_abort:
  "invariant_abort (ran r) (check_preconditions h ps r)"
proof (induction ps arbitrary: r)
  case Nil
  show ?case by simp
next
  case (Cons p ps)
  obtain v w' where v: "verifyCheck h p (world r) = (v, w')"
    by (cases "verifyCheck h p (world r)")
  show ?case
  proof (cases v)
    case (Returns result)
    let ?r1 = "observe (PreconditionRan (critical p) (success result))
                 (r\<lparr>world := w', verificationLog := verificationLog r @ [result]\<rparr>)"
    have "invariant_abort (ran ?r1) (check_preconditions h ps ?r1)" by (rule Cons.IH)
    then show ?thesis using v Returns
      by (auto simp: Let_def invariant_abort_def)
  qed (use v in \<open>simp_all add: invariant_abort_def\<close>)
qed

lemma check_postconditions_invariant_abort:
  "invariant_abort (ran r) (check_postconditions h ps r)"
proof (induction ps arbitrary: r)
  case Nil
  show ?case by simp
next
  case (Cons p ps)
  obtain v w' where v: "verifyCheck h p (world r) = (v, w')"
    by (cases "verifyCheck h p (world r)")
  show ?case
  proof (cases v)
    case (Returns result)
    let ?r1 = "observe (PostconditionRan (critical p) (success result))
                 (r\<lparr>world := w', verificationLog := verificationLog r @ [result]\<rparr>)"
    have "invariant_abort (ran ?r1) (check_postconditions h ps ?r1)" by (rule Cons.IH)
    then show ?thesis using v Returns
      by (auto simp: Let_def invariant_abort_def)
  qed (use v in \<open>simp_all add: invariant_abort_def\<close>)
qed

lemma check_invariants_before_invariant_abort:
  "invariant_abort (ran r) (check_invariants_before h is sid s r)"
proof (induction "is" arbitrary: r)
  case Nil
  show ?case by simp
next
  case (Cons i "is")
  obtain v w' where v: "verifyCheck h i (world r) = (v, w')"
    by (cases "verifyCheck h i (world r)")
  show ?case
  proof (cases v)
    case (Returns result)
    let ?r1 = "observe (InvariantRan (critical i) (success result)) (r\<lparr>world := w'\<rparr>)"
    have "invariant_abort (ran ?r1) (check_invariants_before h is sid s ?r1)" by (rule Cons.IH)
    then show ?thesis using v Returns
      by (auto simp: Let_def invariant_abort_def)
  qed (use v in \<open>simp_all add: invariant_abort_def\<close>)
qed

lemma check_invariants_after_invariant_abort:
  "invariant_abort (ran r) (check_invariants_after h is s r)"
proof (induction "is" arbitrary: r)
  case Nil
  show ?case by simp
next
  case (Cons i "is")
  obtain v w' where v: "verifyCheck h i (world r) = (v, w')"
    by (cases "verifyCheck h i (world r)")
  show ?case
  proof (cases v)
    case (Returns result)
    let ?r1 = "observe (InvariantRan (critical i) (success result)) (r\<lparr>world := w'\<rparr>)"
    have "invariant_abort (ran ?r1) (check_invariants_after h is s ?r1)" by (rule Cons.IH)
    then show ?thesis using v Returns
      by (auto simp: Let_def invariant_abort_def)
  qed (use v in \<open>simp_all add: invariant_abort_def\<close>)
qed

lemma run_step_invariant_abort: "invariant_abort (ran r) (run_step h I sid s r)"
  by (auto simp: invariant_abort_def run_step_def step_catch_def step_verified_def Let_def
      split: option.splits prod.splits outcome.splits if_splits)

lemma execute_step_invariant_abort: "invariant_abort (ran r) (execute_step h I sid r)"
proof (cases "map_of (this_steps r) sid")
  case None
  then show ?thesis by (simp add: execute_step_def invariant_abort_def)
next
  case (Some s)
  show ?thesis
  proof (cases "case dependencies s of None \<Rightarrow> False | Some deps \<Rightarrow> length (unmetDeps r deps) > 0")
    case True
    with Some show ?thesis by (simp add: execute_step_def)
  next
    case False
    have before: "invariant_abort (ran r)
        (case invariants (contract I) of None \<Rightarrow> Next r
         | Some invs \<Rightarrow> check_invariants_before h invs sid s r)"
      by (cases "invariants (contract I)") (simp_all add: check_invariants_before_invariant_abort)
    have after: "\<And>r2. invariant_abort (ran r2)
        (case invariants (contract I) of None \<Rightarrow> Next r2
         | Some invs \<Rightarrow> check_invariants_after h invs s r2)"
      by (cases "invariants (contract I)") (simp_all add: check_invariants_after_invariant_abort)
    have mid: "\<And>r1. invariant_abort (ran r1)
        (run_step h I sid s (emit (EvStepStart (step_name s)) (set_step_status sid Running r1)))"
      using run_step_invariant_abort[of "emit (EvStepStart (step_name s)) (set_step_status sid Running r1)" h I sid s for r1]
      by simp
    from Some False show ?thesis
      unfolding execute_step_def
      by (simp del: and_then_simps) (intro invariant_abort_and_then before mid after)
  qed
qed

lemma execute_steps_invariant_abort: "invariant_abort (ran r) (execute_steps h I sids r)"
proof (induction sids arbitrary: r)
  case Nil
  show ?case by simp
next
  case (Cons sid sids)
  show ?case
    by (simp del: and_then_simps)
      (intro invariant_abort_and_then execute_step_invariant_abort Cons.IH)
qed

lemma phases_invariant_abort: "invariant_abort [] (phases h I w)"
proof -
  have a: "invariant_abort [] (case preconditions (contract I) of
                 None \<Rightarrow> Next (start_run I w)
               | Some ps \<Rightarrow> check_preconditions h ps (emit (EvPhase ''preconditions'') (start_run I w)))"
    using check_preconditions_invariant_abort[of "emit (EvPhase ''preconditions'') (start_run I w)" h]
    by (cases "preconditions (contract I)") simp_all
  have b: "\<And>r1. invariant_abort (ran r1) (execute_steps h I (stepOrder I) (emit (EvPhase ''execution'') r1))"
    using execute_steps_invariant_abort[of "emit (EvPhase ''execution'') r1" h I for r1] by simp
  have c: "\<And>r2. invariant_abort (ran r2) (case postconditions (contract I) of
                  None \<Rightarrow> Next r2
                | Some qs \<Rightarrow> check_postconditions h qs (emit (EvPhase ''postconditions'') r2))"
    using check_postconditions_invariant_abort[of "emit (EvPhase ''postconditions'') r2" h for r2]
    by (cases "postconditions (contract I)") simp_all
  show ?thesis
    unfolding phases_def by (intro invariant_abort_and_then a b c)
qed

lemma execute_invariant_abort: "invariant_abort [] (execute h I w)"
proof -
  have "invariant_abort (ran r) (complete r)" for r :: "'a run"
    by (simp add: invariant_abort_def)
  with phases_invariant_abort[of h I w] show ?thesis
    unfolding execute_phases by (intro invariant_abort_and_then)
qed

text \<open>
  Claim C10. An invariant built from a predicate function is stored with no \<^verbatim>\<open>critical\<close>
  flag. Whatever the \<^verbatim>\<open>critical\<close> flag \<open>c\<close> of an invariant, \<^verbatim>\<open>critical: false\<close> included, if
  its check fails during \<^verbatim>\<open>execute\<close> then \<^verbatim>\<open>execute\<close> returns a failure and that check is the
  last check that ran: the run is aborted at once.
\<close>

theorem failing_invariant_aborts_regardless_of_critical:
  "invariants (contract (invariant (FunctionArg f) e I)) =
     push (invariants (contract I))
       \<lparr>name = None, check = FunctionCheck f, expect = e, critical = None\<rparr>
   \<and> (InvariantRan c False \<in> set (ran (final (execute h I w))) \<longrightarrow>
        aborted (execute h I w) \<and> last (ran (final (execute h I w))) = InvariantRan c False)"
  using execute_invariant_abort[of h I w]
  by (simp add: invariant_def invariant_abort_def)

theorem failing_invariant_aborts_regardless_of_critical_witness:
  "InvariantRan (Some False) False \<in> set (ran (final (execute counting_host guarded_intent 0)))
   \<and> aborted (execute counting_host guarded_intent 0)
   \<and> last (ran (final (execute counting_host guarded_intent 0))) = InvariantRan (Some False) False"
proof -
  have "InvariantRan (Some False) False \<in> set (ran (final (execute counting_host guarded_intent 0)))"
    by (simp add: guarded_intent_def always_false_def builder_defs engine_defs)
  with failing_invariant_aborts_regardless_of_critical
         [of always_false JUndefined guarded_intent "Some False" counting_host 0]
  show ?thesis by simp
qed

subsection \<open>Nothing is erased\<close>

lemma grows_refl [simp]: "grows r (Next r)"
  by (simp add: grows_def)

lemma grows_and_then:
  assumes "grows r fl" and "\<And>r'. fl = Next r' \<Longrightarrow> grows r' (g r')"
  shows "grows r (and_then fl g)"
proof (cases fl)
  case (Next r')
  with assms(1) assms(2)[OF Next] show ?thesis
    unfolding grows_def by (elim conjE exE) simp
qed (use assms in \<open>auto simp: grows_def\<close>)

lemma grows_step:
  assumes "grows r' fl"
    and "\<exists>ps. ran r' = ran r @ ps" and "\<exists>es. emitted r' = emitted r @ es"
    and "\<exists>vs. verificationLog r' = verificationLog r @ vs" and "\<exists>hs. history r' = history r @ hs"
  shows "grows r fl"
  using assms unfolding grows_def by (elim conjE exE) simp

lemma check_preconditions_grows: "grows r (check_preconditions h ps r)"
proof (induction ps arbitrary: r)
  case Nil
  show ?case by simp
next
  case (Cons p ps)
  obtain v w' where v: "verifyCheck h p (world r) = (v, w')"
    by (cases "verifyCheck h p (world r)")
  show ?case
  proof (cases v)
    case (Returns result)
    let ?r1 = "observe (PreconditionRan (critical p) (success result))
                 (r\<lparr>world := w', verificationLog := verificationLog r @ [result]\<rparr>)"
    have "grows ?r1 (check_preconditions h ps ?r1)" by (rule Cons.IH)
    then have "grows r (check_preconditions h ps ?r1)" by (rule grows_step) simp_all
    then show ?thesis using v Returns by (simp add: Let_def) (simp add: grows_def)
  qed (use v in \<open>simp_all add: grows_def\<close>)
qed

lemma check_postconditions_grows: "grows r (check_postconditions h ps r)"
proof (induction ps arbitrary: r)
  case Nil
  show ?case by simp
next
  case (Cons p ps)
  obtain v w' where v: "verifyCheck h p (world r) = (v, w')"
    by (cases "verifyCheck h p (world r)")
  show ?case
  proof (cases v)
    case (Returns result)
    let ?r1 = "observe (PostconditionRan (critical p) (success result))
                 (r\<lparr>world := w', verificationLog := verificationLog r @ [result]\<rparr>)"
    have "grows ?r1 (check_postconditions h ps ?r1)" by (rule Cons.IH)
    then have "grows r (check_postconditions h ps ?r1)" by (rule grows_step) simp_all
    then show ?thesis using v Returns by (simp add: Let_def) (simp add: grows_def)
  qed (use v in \<open>simp_all add: grows_def\<close>)
qed

lemma check_invariants_before_grows: "grows r (check_invariants_before h is sid s r)"
proof (induction "is" arbitrary: r)
  case Nil
  show ?case by simp
next
  case (Cons i "is")
  obtain v w' where v: "verifyCheck h i (world r) = (v, w')"
    by (cases "verifyCheck h i (world r)")
  show ?case
  proof (cases v)
    case (Returns result)
    let ?r1 = "observe (InvariantRan (critical i) (success result)) (r\<lparr>world := w'\<rparr>)"
    have "grows ?r1 (check_invariants_before h is sid s ?r1)" by (rule Cons.IH)
    then have "grows r (check_invariants_before h is sid s ?r1)" by (rule grows_step) simp_all
    then show ?thesis using v Returns by (cases "success result") (simp_all add: Let_def grows_def)
  qed (use v in \<open>simp_all add: grows_def\<close>)
qed

lemma check_invariants_after_grows: "grows r (check_invariants_after h is s r)"
proof (induction "is" arbitrary: r)
  case Nil
  show ?case by simp
next
  case (Cons i "is")
  obtain v w' where v: "verifyCheck h i (world r) = (v, w')"
    by (cases "verifyCheck h i (world r)")
  show ?case
  proof (cases v)
    case (Returns result)
    let ?r1 = "observe (InvariantRan (critical i) (success result)) (r\<lparr>world := w'\<rparr>)"
    have "grows ?r1 (check_invariants_after h is s ?r1)" by (rule Cons.IH)
    then have "grows r (check_invariants_after h is s ?r1)" by (rule grows_step) simp_all
    then show ?thesis using v Returns by (cases "success result") (simp_all add: Let_def grows_def)
  qed (use v in \<open>simp_all add: grows_def\<close>)
qed

lemma run_step_grows: "grows r (run_step h I sid s r)"
  by (auto simp: grows_def run_step_def step_catch_def step_verified_def Let_def
      split: option.splits prod.splits outcome.splits if_splits)

lemma execute_step_grows: "grows r (execute_step h I sid r)"
proof (cases "map_of (this_steps r) sid")
  case None
  then show ?thesis by (simp add: execute_step_def grows_def)
next
  case (Some s)
  show ?thesis
  proof (cases "case dependencies s of None \<Rightarrow> False | Some deps \<Rightarrow> length (unmetDeps r deps) > 0")
    case True
    with Some show ?thesis by (simp add: execute_step_def grows_def)
  next
    case False
    have before: "grows r
        (case invariants (contract I) of None \<Rightarrow> Next r
         | Some invs \<Rightarrow> check_invariants_before h invs sid s r)"
      by (cases "invariants (contract I)") (simp_all add: check_invariants_before_grows)
    have after: "\<And>r2. grows r2
        (case invariants (contract I) of None \<Rightarrow> Next r2
         | Some invs \<Rightarrow> check_invariants_after h invs s r2)"
      by (cases "invariants (contract I)") (simp_all add: check_invariants_after_grows)
    have mid: "\<And>r1. grows r1
        (run_step h I sid s (emit (EvStepStart (step_name s)) (set_step_status sid Running r1)))"
      by (rule grows_step[OF run_step_grows]) simp_all
    from Some False show ?thesis
      unfolding execute_step_def
      by (simp del: and_then_simps) (intro grows_and_then before mid after)
  qed
qed

lemma execute_steps_grows: "grows r (execute_steps h I sids r)"
proof (induction sids arbitrary: r)
  case Nil
  show ?case by simp
next
  case (Cons sid sids)
  show ?case
    by (simp del: and_then_simps) (intro grows_and_then execute_step_grows Cons.IH)
qed

lemma complete_grows: "grows r (complete r)"
  by (simp add: grows_def complete_def Let_def)

lemma steps_onward_grows: "grows (emit (EvPhase ''execution'') r1) (steps_onward h I r1)"
proof -
  have c: "\<And>r2. grows r2 (case postconditions (contract I) of
                  None \<Rightarrow> Next r2
                | Some qs \<Rightarrow> check_postconditions h qs (emit (EvPhase ''postconditions'') r2))"
  proof -
    fix r2 :: "'a run"
    show "grows r2 (case postconditions (contract I) of
                  None \<Rightarrow> Next r2
                | Some qs \<Rightarrow> check_postconditions h qs (emit (EvPhase ''postconditions'') r2))"
    proof (cases "postconditions (contract I)")
      case None
      then show ?thesis by simp
    next
      case (Some qs)
      have "grows r2 (check_postconditions h qs (emit (EvPhase ''postconditions'') r2))"
        by (rule grows_step[OF check_postconditions_grows]) simp_all
      with Some show ?thesis by simp
    qed
  qed
  show ?thesis
    unfolding steps_onward_def
    by (intro grows_and_then execute_steps_grows c complete_grows)
qed

lemma execute_steps_onward:
  "execute h I w =
     and_then (case preconditions (contract I) of
                 None \<Rightarrow> Next (start_run I w)
               | Some ps \<Rightarrow> check_preconditions h ps (emit (EvPhase ''preconditions'') (start_run I w)))
       (steps_onward h I)"
  by (simp add: execute_def steps_onward_def[abs_def])

text \<open>
  Claim C4. When the command of a command-based check exits non-zero (\<^verbatim>\<open>execSync\<close> throws
  an error), the Command backend resolves to a result, and it reports success exactly
  when the expected value is the string \<^verbatim>\<open>fails\<close> or the string \<^verbatim>\<open>error\<close>; for any other
  expected value, none included, it reports a failure whose message is \<^verbatim>\<open>Command failed:\<close>
  followed by the message of the execution error. So an intent whose precondition
  expects \<^verbatim>\<open>fails\<close> of such a command has a passing precondition as the first check that
  ran, and enters the step phase.
\<close>

theorem command_failure_is_success_only_when_expected:
  assumes thrown: "execSync h (command vc) (cwd vc) (env vc) w = (Throws msg, w')"
  shows "(\<exists>result. fst (CommandVerifier_verify h vc e w) = Returns result
            \<and> (success result \<longleftrightarrow> e = JStr ''fails'' \<or> e = JStr ''error'')
            \<and> (\<not> success result \<longrightarrow> message result = ''Command failed: '' @ msg))
       \<and> (preconditions (contract I) = Some [p] \<and> check p = CommandCheck vc \<and> expect p = JStr ''fails''
            \<longrightarrow> take 1 (ran (final (execute h I w))) = [PreconditionRan (critical p) True]
              \<and> EvPhase ''execution'' \<in> set (emitted (final (execute h I w))))"
proof -
  have verdict: "\<exists>result. fst (CommandVerifier_verify h vc e w) = Returns result
            \<and> (success result \<longleftrightarrow> e = JStr ''fails'' \<or> e = JStr ''error'')
            \<and> (\<not> success result \<longrightarrow> message result = ''Command failed: '' @ msg)"
    using thrown by (simp add: CommandVerifier_verify_def commandCatch_def createResult_def)
  have scenario: "take 1 (ran (final (execute h I w))) = [PreconditionRan (critical p) True]
              \<and> EvPhase ''execution'' \<in> set (emitted (final (execute h I w)))"
    if pre: "preconditions (contract I) = Some [p]" and c: "check p = CommandCheck vc"
      and e: "expect p = JStr ''fails''"
  proof -
    let ?r0 = "emit (EvPhase ''preconditions'') (start_run I w)"
    let ?res = "createResult True ''Command failed as expected'' (JStr msg) (JStr ''fails'')"
    let ?r1 = "observe (PreconditionRan (critical p) True)
                 (?r0\<lparr>world := w', verificationLog := verificationLog ?r0 @ [?res]\<rparr>)"
    have "verifyCheck h p (world ?r0) = (Returns ?res, w')"
      using thrown c e by (simp add: verifyCheck_def CommandVerifier_verify_def commandCatch_def)
    then have "check_preconditions h [p] ?r0 = Next ?r1"
      by (simp add: Let_def createResult_def)
    with pre have ex: "execute h I w = steps_onward h I ?r1"
      by (simp add: execute_steps_onward)
    from steps_onward_grows[of ?r1 h I] obtain ps es
      where "ran (final (steps_onward h I ?r1)) = ran (emit (EvPhase ''execution'') ?r1) @ ps"
        and "emitted (final (steps_onward h I ?r1)) = emitted (emit (EvPhase ''execution'') ?r1) @ es"
      unfolding grows_def by blast
    with ex show ?thesis by simp
  qed
  from verdict scenario show ?thesis by blast
qed

theorem command_failure_is_success_only_when_expected_witness:
  "execSync counting_host (command failing_command) (cwd failing_command) (env failing_command) 0
     = (Throws ''exit 1'', 1)
   \<and> preconditions (contract bugfix_intent) = Some [expects_failure]
   \<and> check expects_failure = CommandCheck failing_command
   \<and> expect expects_failure = JStr ''fails''
   \<and> map_option success
        (resolved (fst (CommandVerifier_verify counting_host failing_command (JStr ''fails'') 0)))
       = Some True
   \<and> map_option success
        (resolved (fst (CommandVerifier_verify counting_host failing_command JUndefined 0)))
       = Some False
   \<and> map_option message
        (resolved (fst (CommandVerifier_verify counting_host failing_command JUndefined 0)))
       = Some ''Command failed: exit 1''
   \<and> take 1 (ran (final (execute counting_host bugfix_intent 0))) = [PreconditionRan (Some True) True]
   \<and> EvPhase ''execution'' \<in> set (emitted (final (execute counting_host bugfix_intent 0)))"
proof -
  have t: "execSync counting_host (command failing_command) (cwd failing_command)
             (env failing_command) 0 = (Throws ''exit 1'', 1)"
    by (simp add: counting_host_def failing_command_def)
  have p: "preconditions (contract bugfix_intent) = Some [expects_failure]"
    by (simp add: bugfix_intent_def expects_failure_def failing_command_def builder_defs)
  have c: "check expects_failure = CommandCheck failing_command"
    and e: "expect expects_failure = JStr ''fails''"
    and k: "critical expects_failure = Some True"
    by (simp_all add: expects_failure_def)
  from command_failure_is_success_only_when_expected
         [OF t, where e = "JStr ''fails''" and I = bugfix_intent and p = expects_failure]
       command_failure_is_success_only_when_expected
         [OF t, where e = JUndefined and I = bugfix_intent and p = expects_failure]
       t p c e k
  show ?thesis by auto
qed
subsection \<open>One step\<close>

text \<open>
  Claim C5. When the loop reaches a step of which a declared dependency is missing
  from the step map or is a step whose status is not \<^verbatim>\<open>completed\<close>, the step is marked
  \<^verbatim>\<open>skipped\<close>, the \<^verbatim>\<open>step:skipped\<close> event is emitted and the loop goes on to the next step;
  the world is unchanged and no check or action ran (no probe is written, the
  verification log is unchanged), so neither its action nor its verification was
  invoked, and no other step is touched.
\<close>

theorem unmet_dependency_skips_step:
  assumes s: "map_of (this_steps r) sid = Some s"
    and deps: "dependencies s = Some deps" and d: "d \<in> set deps"
    and unmet: "map_option step_status (map_of (this_steps r) d) \<noteq> Some Completed"
  shows "\<exists>r'. execute_step h I sid r = Next r'
           \<and> map_of (this_steps r') sid = Some (s\<lparr>step_status := Skipped\<rparr>)
           \<and> (\<forall>t. t \<noteq> sid \<longrightarrow> map_of (this_steps r') t = map_of (this_steps r) t)
           \<and> world r' = world r \<and> ran r' = ran r \<and> verificationLog r' = verificationLog r
           \<and> this_status r' = this_status r
           \<and> history r' = history r @ [(sid, Skipped)]
           \<and> emitted r' = emitted r @ [EvStepSkipped (step_name s) ''unmet dependencies'']"
proof -
  have "d \<in> set (unmetDeps r deps)"
    using d unmet by (auto simp: unmetDeps_def split: option.splits)
  then have "length (unmetDeps r deps) > 0" by (cases "unmetDeps r deps") auto
  with s deps have "execute_step h I sid r =
      Next (emit (EvStepSkipped (step_name s) ''unmet dependencies'') (set_step_status sid Skipped r))"
    by (simp add: execute_step_def)
  with s show ?thesis by (simp add: map_of_map_entry)
qed

theorem unmet_dependency_skips_step_witness:
  "map_of (this_steps (start_run orphan_intent 0)) ''s1'' = Some orphan_step
   \<and> dependencies orphan_step = Some [''zz''] \<and> ''zz'' \<in> set [''zz'']
   \<and> map_option step_status (map_of (this_steps (start_run orphan_intent 0)) ''zz'') \<noteq> Some Completed
   \<and> (\<exists>r'. execute_step counting_host orphan_intent ''s1'' (start_run orphan_intent 0) = Next r'
           \<and> map_of (this_steps r') ''s1'' = Some (orphan_step\<lparr>step_status := Skipped\<rparr>)
           \<and> world r' = 0 \<and> ran r' = [] \<and> verificationLog r' = []
           \<and> history r' = [(''s1'', Skipped)])"
proof -
  have a: "map_of (this_steps (start_run orphan_intent 0)) ''s1'' = Some orphan_step"
    by (simp add: orphan_intent_def orphan_step_def builder_defs)
  have b: "dependencies orphan_step = Some [''zz'']" by (simp add: orphan_step_def)
  have c: "''zz'' \<in> set [''zz'']" by simp
  have d: "map_option step_status (map_of (this_steps (start_run orphan_intent 0)) ''zz'') \<noteq> Some Completed"
    by (simp add: orphan_intent_def builder_defs)
  from unmet_dependency_skips_step[OF a b c d, of counting_host orphan_intent] a b d
  show ?thesis by auto
qed








subsection \<open>The statuses of the steps\<close>

lemma assigned_simps [simp]:
  "assigned t [] = []"
  "assigned t ((sid, st) # hs) = (if sid = t then st # assigned t hs else assigned t hs)"
  "assigned t (hs @ hs') = assigned t hs @ assigned t hs'"
  by (simp_all add: assigned_def)

lemma assigned_empty: "t \<notin> fst ` set hs \<Longrightarrow> assigned t hs = []"
  by (induction hs) (auto simp: assigned_def)

lemma visits_Next [simp]: "visits S r (Next r)"
  by (simp add: visits_def forward_def)

lemma visits_and_then:
  assumes "visits S1 r fl" and "\<And>r'. fl = Next r' \<Longrightarrow> visits S2 r' (g r')"
    and "S1 \<inter> S2 = {}"
  shows "visits (S1 \<union> S2) r (and_then fl g)"
proof (cases fl)
  case (Next r')
  from assms(1) Next obtain hs1 where h1: "history r' = history r @ hs1" "fst ` set hs1 \<subseteq> S1"
    "\<And>t. forward (Pending # assigned t hs1)"
    unfolding visits_def by auto
  from assms(2)[OF Next] obtain hs2 where h2: "history (final (g r')) = history r' @ hs2"
    "fst ` set hs2 \<subseteq> S2" "\<And>t. forward (Pending # assigned t hs2)"
    unfolding visits_def by auto
  have "forward (Pending # assigned t (hs1 @ hs2))" for t
  proof (cases "t \<in> S1")
    case True
    with assms(3) h2(2) have "t \<notin> fst ` set hs2" by auto
    then show ?thesis using h1(3)[of t] by (simp add: assigned_empty)
  next
    case False
    with h1(2) have "t \<notin> fst ` set hs1" by auto
    then show ?thesis using h2(3)[of t] by (simp add: assigned_empty)
  qed
  with h1 h2 Next show ?thesis
    unfolding visits_def by (intro exI[of _ "hs1 @ hs2"]) auto
next
  case (Return x r')
  with assms(1) show ?thesis unfolding visits_def by auto
next
  case (Raise m r')
  with assms(1) show ?thesis unfolding visits_def by auto
qed

lemma check_invariants_before_history:
  "history (final (check_invariants_before h is sid s r)) =
     history r @ (case check_invariants_before h is sid s r of
                    Return x r' \<Rightarrow> [(sid, Failed)] | _ \<Rightarrow> [])"
proof (induction "is" arbitrary: r)
  case Nil
  show ?case by simp
next
  case (Cons i "is")
  obtain v w' where v: "verifyCheck h i (world r) = (v, w')"
    by (cases "verifyCheck h i (world r)")
  show ?case
  proof (cases v)
    case (Returns result)
    let ?r1 = "observe (InvariantRan (critical i) (success result)) (r\<lparr>world := w'\<rparr>)"
    from Cons.IH[of ?r1] v Returns show ?thesis
      by (cases "success result") (simp_all add: Let_def)
  qed (use v Cons.prems in simp_all)
qed

lemma run_step_history:
  "\<exists>st. history (final (run_step h I sid s r)) = history r @ [(sid, st)] \<and> (st = Completed \<or> st = Failed)"
  by (auto simp: run_step_def step_catch_def step_verified_def Let_def
      split: option.splits prod.splits outcome.splits)

lemma forward_examples [simp]:
  "forward [Pending]" "forward [Pending, Skipped]" "forward [Pending, Failed]"
  "forward [Pending, Running]"
  "forward [Pending, Running, Completed]" "forward [Pending, Running, Failed]"
  by (simp_all add: forward_def advances_def)

lemma visits_single:
  assumes "history (final fl) = history r @ hs"
    and "fst ` set hs \<subseteq> {sid}" and "forward (Pending # map snd hs)"
  shows "visits {sid} r fl"
proof -
  have "assigned t hs = (if t = sid then map snd hs else [])" for t
  proof (cases "t = sid")
    case True
    with assms(2) have "filter (\<lambda>e. fst e = t) hs = hs" by (intro filter_True) auto
    with True show ?thesis by (simp add: assigned_def)
  next
    case False
    with assms(2) have "t \<notin> fst ` set hs" by auto
    with False show ?thesis by (simp add: assigned_empty)
  qed
  with assms show ?thesis unfolding visits_def by (intro exI[of _ hs]) simp
qed

lemma execute_step_visits: "visits {sid} r (execute_step h I sid r)"
proof (cases "map_of (this_steps r) sid")
  case None
  then show ?thesis by (simp add: execute_step_def visits_def)
next
  case (Some s)
  show ?thesis
  proof (cases "case dependencies s of None \<Rightarrow> False | Some deps \<Rightarrow> length (unmetDeps r deps) > 0")
    case True
    with Some have "execute_step h I sid r =
        Next (emit (EvStepSkipped (step_name s) ''unmet dependencies'') (set_step_status sid Skipped r))"
      by (simp add: execute_step_def)
    then show ?thesis by (intro visits_single[where hs = "[(sid, Skipped)]"]) simp_all
  next
    case False
    let ?before = "case invariants (contract I) of None \<Rightarrow> Next r
                   | Some invs \<Rightarrow> check_invariants_before h invs sid s r"
    let ?after = "\<lambda>r2. case invariants (contract I) of None \<Rightarrow> Next r2
                   | Some invs \<Rightarrow> check_invariants_after h invs s r2"
    let ?mid = "\<lambda>r1. run_step h I sid s (emit (EvStepStart (step_name s)) (set_step_status sid Running r1))"
    have ex: "execute_step h I sid r = and_then ?before (\<lambda>r1. and_then (?mid r1) ?after)"
      using Some False by (simp add: execute_step_def)
    have hb: "history (final ?before) = history r @ (case ?before of
                    Return x r' \<Rightarrow> [(sid, Failed)] | _ \<Rightarrow> [])"
      by (cases "invariants (contract I)") (simp_all add: check_invariants_before_history)
    have ha: "history (final (?after r2)) = history r2" for r2
      by (cases "invariants (contract I)") (simp_all add: check_invariants_after_frame)
    show ?thesis
    proof (cases ?before)
      case (Next r1)
      with hb have h1: "history r1 = history r" by simp
      obtain st where st: "history (final (?mid r1)) = history r @ [(sid, Running), (sid, st)]"
        "st = Completed \<or> st = Failed"
        using run_step_history[of h I sid s "emit (EvStepStart (step_name s)) (set_step_status sid Running r1)"]
          h1 by auto
      have "history (final (and_then (?mid r1) ?after)) = history (final (?mid r1))"
        by (cases "?mid r1") (simp_all add: ha)
      with st Next ex have "history (final (execute_step h I sid r)) = history r @ [(sid, Running), (sid, st)]"
        by simp
      then show ?thesis using st(2)
        by (intro visits_single[where hs = "[(sid, Running), (sid, st)]"]) auto
    next
      case (Return x r1)
      with hb ex have "history (final (execute_step h I sid r)) = history r @ [(sid, Failed)]"
        by simp
      then show ?thesis by (intro visits_single[where hs = "[(sid, Failed)]"]) simp_all
    next
      case (Raise m r1)
      with hb ex have "history (final (execute_step h I sid r)) = history r"
        by simp
      then show ?thesis by (intro visits_single[where hs = "[]"]) simp_all
    qed
  qed
qed

lemma execute_steps_visits:
  "distinct sids \<Longrightarrow> visits (set sids) r (execute_steps h I sids r)"
proof (induction sids arbitrary: r)
  case Nil
  show ?case by simp
next
  case (Cons sid sids)
  have "visits ({sid} \<union> set sids) r (and_then (execute_step h I sid r) (execute_steps h I sids))"
    using Cons.prems by (intro visits_and_then execute_step_visits Cons.IH) auto
  then show ?case by simp
qed

lemma visits_unchanged:
  assumes "history (final fl) = history r"
  shows "visits {} r fl"
  using assms by (simp add: visits_def forward_def)

lemma visits_shift:
  assumes "visits S r' fl" and "history r' = history r"
  shows "visits S r fl"
  using assms by (simp add: visits_def)

lemma phases_visits:
  assumes "distinct (stepOrder I)"
  shows "visits (set (stepOrder I)) (start_run I w) (phases h I w)"
proof -
  let ?A = "case preconditions (contract I) of
                 None \<Rightarrow> Next (start_run I w)
               | Some ps \<Rightarrow> check_preconditions h ps (emit (EvPhase ''preconditions'') (start_run I w))"
  have a: "visits {} (start_run I w) ?A"
    by (cases "preconditions (contract I)") (simp_all add: visits_unchanged check_preconditions_frame)
  have c: "visits {} r2 (case postconditions (contract I) of
                  None \<Rightarrow> Next r2
                | Some qs \<Rightarrow> check_postconditions h qs (emit (EvPhase ''postconditions'') r2))" for r2
    by (cases "postconditions (contract I)") (simp_all add: visits_unchanged check_postconditions_frame)
  have b: "visits (set (stepOrder I)) r1 (execute_steps h I (stepOrder I) (emit (EvPhase ''execution'') r1))" for r1
    by (rule visits_shift[OF execute_steps_visits[OF assms]]) simp
  have bc: "visits (set (stepOrder I) \<union> {}) r1
      (and_then (execute_steps h I (stepOrder I) (emit (EvPhase ''execution'') r1))
         (\<lambda>r2. case postconditions (contract I) of
                  None \<Rightarrow> Next r2
                | Some qs \<Rightarrow> check_postconditions h qs (emit (EvPhase ''postconditions'') r2)))" for r1
    by (intro visits_and_then b c) simp
  have "visits ({} \<union> (set (stepOrder I) \<union> {})) (start_run I w) (phases h I w)"
    unfolding phases_def by (intro visits_and_then a bc) simp
  then show ?thesis by simp
qed

lemma tracked_assign:
  "tracked ss0 ss hs \<Longrightarrow>
   tracked ss0 (AList.map_entry sid (\<lambda>s. s\<lparr>step_status := st\<rparr>) ss) (hs @ [(sid, st)])"
  unfolding tracked_def
proof (intro allI)
  fix t
  assume a: "\<forall>t. map_option step_status (map_of ss t)
            = map_option (\<lambda>s. last (step_status s # assigned t hs)) (map_of ss0 t)"
  show "map_option step_status (map_of (AList.map_entry sid (\<lambda>s. s\<lparr>step_status := st\<rparr>) ss) t)
        = map_option (\<lambda>s. last (step_status s # assigned t (hs @ [(sid, st)]))) (map_of ss0 t)"
  proof (cases "t = sid")
    case False
    with a[rule_format, of t] show ?thesis by (simp add: map_of_map_entry)
  next
    case True
    with a[rule_format, of sid] show ?thesis
      by (cases "map_of ss sid"; cases "map_of ss0 sid") (simp_all add: map_of_map_entry)
  qed
qed

lemma tracked_result:
  "tracked ss0 ss hs \<Longrightarrow>
   tracked ss0 (AList.map_entry sid (\<lambda>s. s\<lparr>step_result := x\<rparr>) ss) hs"
  unfolding tracked_def
proof (intro allI)
  fix t
  assume a: "\<forall>t. map_option step_status (map_of ss t)
            = map_option (\<lambda>s. last (step_status s # assigned t hs)) (map_of ss0 t)"
  show "map_option step_status (map_of (AList.map_entry sid (\<lambda>s. s\<lparr>step_result := x\<rparr>) ss) t)
        = map_option (\<lambda>s. last (step_status s # assigned t hs)) (map_of ss0 t)"
    using a[rule_format, of t]
    by (cases "t = sid"; cases "map_of ss sid") (auto simp: map_of_map_entry)
qed

lemma tracked_start: "tracked ss0 ss0 []"
  by (simp add: tracked_def)

lemma final_and_then_invariant:
  assumes "P (final fl)" and "\<And>r'. fl = Next r' \<Longrightarrow> P r' \<Longrightarrow> P (final (g r'))"
  shows "P (final (and_then fl g))"
  using assms by (cases fl) auto

lemma check_invariants_before_tracked:
  "tracked ss0 (this_steps r) (history r) \<Longrightarrow>
   tracked ss0 (this_steps (final (check_invariants_before h is sid s r)))
     (history (final (check_invariants_before h is sid s r)))"
proof (induction "is" arbitrary: r)
  case Nil
  then show ?case by simp
next
  case (Cons i "is")
  obtain v w' where v: "verifyCheck h i (world r) = (v, w')"
    by (cases "verifyCheck h i (world r)")
  show ?case
  proof (cases v)
    case (Returns result)
    let ?r1 = "observe (InvariantRan (critical i) (success result)) (r\<lparr>world := w'\<rparr>)"
    have "tracked ss0 (this_steps ?r1) (history ?r1)" using Cons.prems by simp
    from Cons.IH[OF this] Cons.prems v Returns show ?thesis
      by (cases "success result") (simp_all add: Let_def tracked_assign)
  qed (use v Cons.prems in simp_all)
qed

lemma run_step_tracked:
  "tracked ss0 (this_steps r) (history r) \<Longrightarrow>
   tracked ss0 (this_steps (final (run_step h I sid s r))) (history (final (run_step h I sid s r)))"
  by (auto simp: run_step_def step_catch_def step_verified_def Let_def tracked_assign tracked_result
      split: option.splits prod.splits outcome.splits)

lemma execute_step_tracked:
  assumes "tracked ss0 (this_steps r) (history r)"
  shows "tracked ss0 (this_steps (final (execute_step h I sid r)))
           (history (final (execute_step h I sid r)))"
proof (cases "map_of (this_steps r) sid")
  case None
  with assms show ?thesis by (simp add: execute_step_def)
next
  case (Some s)
  show ?thesis
  proof (cases "case dependencies s of None \<Rightarrow> False | Some deps \<Rightarrow> length (unmetDeps r deps) > 0")
    case True
    with Some assms show ?thesis by (simp add: execute_step_def tracked_assign)
  next
    case False
    let ?P = "\<lambda>r. tracked ss0 (this_steps r) (history r)"
    have before: "?P (final (case invariants (contract I) of None \<Rightarrow> Next r
                   | Some invs \<Rightarrow> check_invariants_before h invs sid s r))"
      using assms by (cases "invariants (contract I)") (simp_all add: check_invariants_before_tracked)
    have after: "?P r2 \<Longrightarrow> ?P (final (case invariants (contract I) of None \<Rightarrow> Next r2
                   | Some invs \<Rightarrow> check_invariants_after h invs s r2))" for r2
      by (cases "invariants (contract I)") (simp_all add: check_invariants_after_frame)
    have mid: "?P r1 \<Longrightarrow> ?P (final (run_step h I sid s
                  (emit (EvStepStart (step_name s)) (set_step_status sid Running r1))))" for r1
      by (rule run_step_tracked) (simp add: tracked_assign)
    have "?P (final (and_then (case invariants (contract I) of None \<Rightarrow> Next r
                   | Some invs \<Rightarrow> check_invariants_before h invs sid s r)
            (\<lambda>r1. and_then (run_step h I sid s
                  (emit (EvStepStart (step_name s)) (set_step_status sid Running r1)))
               (\<lambda>r2. case invariants (contract I) of None \<Rightarrow> Next r2
                   | Some invs \<Rightarrow> check_invariants_after h invs s r2))))"
      by (rule final_and_then_invariant[where P = ?P, OF before])
         (rule final_and_then_invariant[where P = ?P, OF mid after])
    with Some False show ?thesis by (simp add: execute_step_def)
  qed
qed

lemma execute_steps_tracked:
  "tracked ss0 (this_steps r) (history r) \<Longrightarrow>
   tracked ss0 (this_steps (final (execute_steps h I sids r)))
     (history (final (execute_steps h I sids r)))"
proof (induction sids arbitrary: r)
  case Nil
  then show ?case by simp
next
  case (Cons sid sids)
  let ?P = "\<lambda>r. tracked ss0 (this_steps r) (history r)"
  have "?P (final (and_then (execute_step h I sid r) (execute_steps h I sids)))"
    by (rule final_and_then_invariant[where P = ?P, OF execute_step_tracked[OF Cons.prems]])
       (rule Cons.IH)
  then show ?case by simp
qed

lemma execute_tracked:
  "tracked (steps I) (this_steps (final (execute h I w))) (history (final (execute h I w)))"
proof -
  let ?P = "\<lambda>r. tracked (steps I) (this_steps r) (history r)"
  have a: "?P (final (case preconditions (contract I) of
                 None \<Rightarrow> Next (start_run I w)
               | Some ps \<Rightarrow> check_preconditions h ps (emit (EvPhase ''preconditions'') (start_run I w))))"
    by (cases "preconditions (contract I)") (simp_all add: check_preconditions_frame tracked_start)
  have b: "?P r1 \<Longrightarrow> ?P (final (execute_steps h I (stepOrder I) (emit (EvPhase ''execution'') r1)))" for r1
    by (rule execute_steps_tracked) simp
  have c: "?P r2 \<Longrightarrow> ?P (final (case postconditions (contract I) of
                  None \<Rightarrow> Next r2
                | Some qs \<Rightarrow> check_postconditions h qs (emit (EvPhase ''postconditions'') r2)))" for r2
    by (cases "postconditions (contract I)") (simp_all add: check_postconditions_frame)
  have d: "?P r3 \<Longrightarrow> ?P (final (complete r3))" for r3 by simp
  have cd: "?P (final (and_then (case postconditions (contract I) of
                           None \<Rightarrow> Next r2
                         | Some qs \<Rightarrow> check_postconditions h qs (emit (EvPhase ''postconditions'') r2))
            complete))" if "?P r2" for r2
  proof (rule final_and_then_invariant[where P = ?P])
    show "?P (final (case postconditions (contract I) of
                           None \<Rightarrow> Next r2
                         | Some qs \<Rightarrow> check_postconditions h qs (emit (EvPhase ''postconditions'') r2)))"
      using that by (rule c)
  next
    fix r' :: "'a run"
    assume "?P r'"
    then show "?P (final (complete r'))" by (rule d)
  qed
  have bcd: "?P (final (and_then (execute_steps h I (stepOrder I) (emit (EvPhase ''execution'') r1))
         (\<lambda>r2. and_then (case postconditions (contract I) of
                           None \<Rightarrow> Next r2
                         | Some qs \<Rightarrow> check_postconditions h qs (emit (EvPhase ''postconditions'') r2))
            complete)))" if "?P r1" for r1
  proof (rule final_and_then_invariant[where P = ?P])
    show "?P (final (execute_steps h I (stepOrder I) (emit (EvPhase ''execution'') r1)))"
      using that by (rule b)
  next
    fix r' :: "'a run"
    assume "?P r'"
    then show "?P (final (and_then (case postconditions (contract I) of
                           None \<Rightarrow> Next r'
                         | Some qs \<Rightarrow> check_postconditions h qs (emit (EvPhase ''postconditions'') r'))
            complete))" by (rule cd)
  qed
  have "?P (final (and_then (case preconditions (contract I) of
                 None \<Rightarrow> Next (start_run I w)
               | Some ps \<Rightarrow> check_preconditions h ps (emit (EvPhase ''preconditions'') (start_run I w)))
       (\<lambda>r1. and_then (execute_steps h I (stepOrder I) (emit (EvPhase ''execution'') r1))
         (\<lambda>r2. and_then (case postconditions (contract I) of
                           None \<Rightarrow> Next r2
                         | Some qs \<Rightarrow> check_postconditions h qs (emit (EvPhase ''postconditions'') r2))
            complete))))"
  proof (rule final_and_then_invariant[where P = ?P, OF a])
    fix r' :: "'a run"
    assume "?P r'"
    then show "?P (final (and_then (execute_steps h I (stepOrder I) (emit (EvPhase ''execution'') r'))
         (\<lambda>r2. and_then (case postconditions (contract I) of
                           None \<Rightarrow> Next r2
                         | Some qs \<Rightarrow> check_postconditions h qs (emit (EvPhase ''postconditions'') r2))
            complete)))" by (rule bcd)
  qed
  then show ?thesis by (simp add: execute_def)
qed

text \<open>
  Claim C9. Within one call of \<^verbatim>\<open>execute\<close> on an intent whose steps have distinct
  identities, the statuses assigned to any one step only advance in the order \<^verbatim>\<open>pending\<close>,
  \<^verbatim>\<open>running\<close>, terminal: counted from the \<^verbatim>\<open>pending\<close> status a step is created with, every
  status assigned is strictly later than all before it. So no step is assigned
  \<^verbatim>\<open>pending\<close>, none is assigned \<^verbatim>\<open>running\<close> twice, and once a step has been assigned
  \<^verbatim>\<open>completed\<close>, \<^verbatim>\<open>failed\<close> or \<^verbatim>\<open>skipped\<close> its status is not assigned again. The status a
  step has when \<^verbatim>\<open>execute\<close> ends is the last one assigned to it, or the one it started with
  when none was assigned.
\<close>

theorem step_status_only_advances:
  assumes "distinct (stepOrder I)"
  shows "forward (Pending # assigned sid (history (final (execute h I w))))
       \<and> map_option step_status (map_of (this_steps (final (execute h I w))) sid)
           = map_option (\<lambda>s. last (step_status s # assigned sid (history (final (execute h I w)))))
               (map_of (steps I) sid)"
proof -
  have "visits (set (stepOrder I) \<union> {}) (start_run I w) (and_then (phases h I w) complete)"
    by (intro visits_and_then phases_visits[OF assms] visits_unchanged) simp_all
  then have "forward (Pending # assigned sid (history (final (execute h I w))))"
    by (simp add: execute_phases visits_def)
  with execute_tracked[of I h w] show ?thesis
    unfolding tracked_def by blast
qed

theorem step_status_only_advances_witness:
  "distinct (stepOrder continue_intent)
   \<and> assigned ''s1'' (history (final (execute counting_host continue_intent 0))) = [Running, Failed]
   \<and> forward [Pending, Running, Failed]
   \<and> map_option step_status (map_of (this_steps (final (execute counting_host continue_intent 0))) ''s1'')
       = Some Failed"
proof -
  have d: "distinct (stepOrder continue_intent)"
    by (simp add: continue_intent_def builder_defs)
  have a: "assigned ''s1'' (history (final (execute counting_host continue_intent 0))) = [Running, Failed]"
    by (simp add: continue_intent_def builder_defs engine_defs)
  have s: "map_option step_status (map_of (steps continue_intent) ''s1'') = Some Pending"
    by (simp add: continue_intent_def builder_defs)
  from step_status_only_advances[OF d, of "''s1''" counting_host 0] d a s
  show ?thesis by (auto simp: map_option_case split: option.splits)
qed

subsection \<open>The first failing step halts the run\<close>

lemma verifies_only_Next [simp]:
  "verifies_only S ps (Next r) = (\<forall>t b. VerifyRan t b \<in> set (ran r) \<longrightarrow> VerifyRan t b \<in> set ps \<or> t \<in> S)"
  by (simp add: verifies_only_def)

lemma verifies_only_and_then:
  assumes "verifies_only S ps fl" and "\<And>r'. fl = Next r' \<Longrightarrow> verifies_only S (ran r') (g r')"
  shows "verifies_only S ps (and_then fl g)"
proof (cases fl)
  case (Next r')
  with assms(1) assms(2)[OF Next] show ?thesis
    unfolding verifies_only_def by simp blast
qed (use assms in \<open>auto simp: verifies_only_def\<close>)

lemma verifies_only_mono: "verifies_only S ps fl \<Longrightarrow> S \<subseteq> S' \<Longrightarrow> verifies_only S' ps fl"
  unfolding verifies_only_def by blast

lemma check_preconditions_verifies_only: "verifies_only S (ran r) (check_preconditions h ps r)"
proof (induction ps arbitrary: r)
  case Nil
  show ?case by simp
next
  case (Cons p ps)
  obtain v w' where v: "verifyCheck h p (world r) = (v, w')"
    by (cases "verifyCheck h p (world r)")
  show ?case
  proof (cases v)
    case (Returns result)
    let ?r1 = "observe (PreconditionRan (critical p) (success result))
                 (r\<lparr>world := w', verificationLog := verificationLog r @ [result]\<rparr>)"
    have "verifies_only S (ran ?r1) (check_preconditions h ps ?r1)" by (rule Cons.IH)
    then show ?thesis using v Returns
      by (auto simp: Let_def verifies_only_def)
  qed (use v in \<open>simp_all add: verifies_only_def\<close>)
qed

lemma check_postconditions_verifies_only: "verifies_only S (ran r) (check_postconditions h ps r)"
proof (induction ps arbitrary: r)
  case Nil
  show ?case by simp
next
  case (Cons p ps)
  obtain v w' where v: "verifyCheck h p (world r) = (v, w')"
    by (cases "verifyCheck h p (world r)")
  show ?case
  proof (cases v)
    case (Returns result)
    let ?r1 = "observe (PostconditionRan (critical p) (success result))
                 (r\<lparr>world := w', verificationLog := verificationLog r @ [result]\<rparr>)"
    have "verifies_only S (ran ?r1) (check_postconditions h ps ?r1)" by (rule Cons.IH)
    then show ?thesis using v Returns
      by (auto simp: Let_def verifies_only_def)
  qed (use v in \<open>simp_all add: verifies_only_def\<close>)
qed

lemma check_invariants_before_verifies_only:
  "verifies_only S (ran r) (check_invariants_before h is sid s r)"
proof (induction "is" arbitrary: r)
  case Nil
  show ?case by simp
next
  case (Cons i "is")
  obtain v w' where v: "verifyCheck h i (world r) = (v, w')"
    by (cases "verifyCheck h i (world r)")
  show ?case
  proof (cases v)
    case (Returns result)
    let ?r1 = "observe (InvariantRan (critical i) (success result)) (r\<lparr>world := w'\<rparr>)"
    have "verifies_only S (ran ?r1) (check_invariants_before h is sid s ?r1)" by (rule Cons.IH)
    then show ?thesis using v Returns
      by (auto simp: Let_def verifies_only_def)
  qed (use v in \<open>simp_all add: verifies_only_def\<close>)
qed

lemma check_invariants_after_verifies_only:
  "verifies_only S (ran r) (check_invariants_after h is s r)"
proof (induction "is" arbitrary: r)
  case Nil
  show ?case by simp
next
  case (Cons i "is")
  obtain v w' where v: "verifyCheck h i (world r) = (v, w')"
    by (cases "verifyCheck h i (world r)")
  show ?case
  proof (cases v)
    case (Returns result)
    let ?r1 = "observe (InvariantRan (critical i) (success result)) (r\<lparr>world := w'\<rparr>)"
    have "verifies_only S (ran ?r1) (check_invariants_after h is s ?r1)" by (rule Cons.IH)
    then show ?thesis using v Returns
      by (auto simp: Let_def verifies_only_def)
  qed (use v in \<open>simp_all add: verifies_only_def\<close>)
qed

lemma run_step_verifies_only: "verifies_only {sid} (ran r) (run_step h I sid s r)"
  by (auto simp: verifies_only_def run_step_def step_catch_def step_verified_def Let_def
      split: option.splits prod.splits outcome.splits if_splits)

lemma execute_step_verifies_only: "verifies_only {sid} (ran r) (execute_step h I sid r)"
proof (cases "map_of (this_steps r) sid")
  case None
  then show ?thesis by (simp add: execute_step_def verifies_only_def)
next
  case (Some s)
  show ?thesis
  proof (cases "case dependencies s of None \<Rightarrow> False | Some deps \<Rightarrow> length (unmetDeps r deps) > 0")
    case True
    with Some show ?thesis by (simp add: execute_step_def)
  next
    case False
    have before: "verifies_only {sid} (ran r)
        (case invariants (contract I) of None \<Rightarrow> Next r
         | Some invs \<Rightarrow> check_invariants_before h invs sid s r)"
      by (cases "invariants (contract I)") (simp_all add: check_invariants_before_verifies_only)
    have after: "\<And>r2. verifies_only {sid} (ran r2)
        (case invariants (contract I) of None \<Rightarrow> Next r2
         | Some invs \<Rightarrow> check_invariants_after h invs s r2)"
      by (cases "invariants (contract I)") (simp_all add: check_invariants_after_verifies_only)
    have mid: "\<And>r1. verifies_only {sid} (ran r1)
        (run_step h I sid s (emit (EvStepStart (step_name s)) (set_step_status sid Running r1)))"
      using run_step_verifies_only[of sid "emit (EvStepStart (step_name s)) (set_step_status sid Running r1)" h I s for r1]
      by simp
    from Some False show ?thesis
      unfolding execute_step_def
      by (simp del: and_then_simps) (intro verifies_only_and_then before mid after)
  qed
qed

lemma execute_steps_verifies_only: "verifies_only (set sids) (ran r) (execute_steps h I sids r)"
proof (induction sids arbitrary: r)
  case Nil
  show ?case by simp
next
  case (Cons sid sids)
  have a: "verifies_only (set (sid # sids)) (ran r) (execute_step h I sid r)"
    by (rule verifies_only_mono[OF execute_step_verifies_only]) simp
  have b: "verifies_only (set (sid # sids)) (ran r') (execute_steps h I sids r')" for r'
    by (rule verifies_only_mono[OF Cons.IH]) auto
  show ?case
    by (simp del: and_then_simps set_simps) (intro verifies_only_and_then a b)
qed

lemma execute_steps_append:
  "execute_steps h I (xs @ ys) r = and_then (execute_steps h I xs r) (execute_steps h I ys)"
proof (induction xs arbitrary: r)
  case Nil
  show ?case by simp
next
  case (Cons x xs)
  have "execute_steps h I (xs @ ys) = (\<lambda>r. and_then (execute_steps h I xs r) (execute_steps h I ys))"
    by (rule ext) (rule Cons.IH)
  then show ?case by (simp add: and_then_assoc)
qed

text \<open>
  With \<^verbatim>\<open>stopOnFailure\<close>, a run in which the verification of the step \<open>sid\<close> failed ended
  in the loop over the steps, at \<open>sid\<close> or before.
\<close>

lemma halts_at_failing_step:
  assumes stop: "stopOnFailure (options I) = Some True"
    and order: "stepOrder I = pre @ sid # post" and post: "sid \<notin> set post"
    and fails: "VerifyRan sid False \<in> set (ran (final (execute h I w)))"
  shows "\<exists>r1. history r1 = [] \<and> this_steps r1 = steps I
           \<and> \<not> (\<exists>r2. execute_steps h I (pre @ [sid]) r1 = Next r2)
           \<and> execute h I w = execute_steps h I (pre @ [sid]) r1"
proof -
  let ?A = "case preconditions (contract I) of
                 None \<Rightarrow> Next (start_run I w)
               | Some ps \<Rightarrow> check_preconditions h ps (emit (EvPhase ''preconditions'') (start_run I w))"
  let ?C = "\<lambda>r2. case postconditions (contract I) of
                  None \<Rightarrow> Next r2
                | Some qs \<Rightarrow> check_postconditions h qs (emit (EvPhase ''postconditions'') r2)"
  have ex: "execute h I w =
      and_then ?A (\<lambda>r1. and_then (execute_steps h I (pre @ [sid]) (emit (EvPhase ''execution'') r1))
                      (\<lambda>r2. and_then (execute_steps h I post r2) (\<lambda>r3. and_then (?C r3) complete)))"
    using execute_steps_append[of h I "pre @ [sid]" post]
    by (simp add: execute_def order and_then_assoc)
  have A_sound: "verdict_sound [] ?A"
    using check_preconditions_sound[of "emit (EvPhase ''preconditions'') (start_run I w)" h]
    by (cases "preconditions (contract I)") simp_all
  have A_ver: "verifies_only {} [] ?A"
    using check_preconditions_verifies_only[of "{}" "emit (EvPhase ''preconditions'') (start_run I w)" h]
    by (cases "preconditions (contract I)") simp_all
  have A_frame: "history (final ?A) = [] \<and> this_steps (final ?A) = steps I"
    by (cases "preconditions (contract I)") (simp_all add: check_preconditions_frame)
  show ?thesis
  proof (cases ?A)
    case (Return x r1)
    with ex fails A_ver show ?thesis by (simp add: verifies_only_def)
  next
    case (Raise m r1)
    with ex fails A_ver show ?thesis by (simp add: verifies_only_def)
  next
    case (Next r1)
    let ?R1 = "emit (EvPhase ''execution'') r1"
    let ?P = "execute_steps h I (pre @ [sid]) ?R1"
    from Next A_sound have ok1: "all_passed (ran r1)" by simp
    from Next A_frame have fr: "history ?R1 = []" "this_steps ?R1 = steps I" by simp_all
    have P_sound: "verdict_sound (ran r1) ?P"
      using execute_steps_sound[OF stop, of ?R1 h "pre @ [sid]"] by simp
    have notNext: "?P \<noteq> Next r2" for r2
    proof
      assume P: "?P = Next r2"
      with P_sound ok1 have ok2: "all_passed (ran r2)" by simp
      have rest: "verifies_only (set post) (ran r2)
          (and_then (execute_steps h I post r2) (\<lambda>r3. and_then (?C r3) complete))"
      proof (intro verifies_only_and_then execute_steps_verifies_only)
        fix r3 :: "'a run"
        show "verifies_only (set post) (ran r3) (?C r3)"
          using check_postconditions_verifies_only[of "set post" "emit (EvPhase ''postconditions'') r3" h]
          by (cases "postconditions (contract I)") simp_all
      next
        fix r4 :: "'a run"
        show "verifies_only (set post) (ran r4) (complete r4)"
          by (simp add: verifies_only_def)
      qed
      from ex Next P fails have "VerifyRan sid False \<in> set (ran (final
          (and_then (execute_steps h I post r2) (\<lambda>r3. and_then (?C r3) complete))))"
        by simp
      with rest post have "VerifyRan sid False \<in> set (ran r2)"
        unfolding verifies_only_def by blast
      with ok2 show False by (auto simp: all_passed_def)
    qed
    have "execute h I w = ?P"
    proof (cases ?P)
      case P: (Next r2)
      with notNext[of r2] show ?thesis by simp
    next
      case P: (Return x r2)
      with ex Next show ?thesis by simp
    next
      case P: (Raise m r2)
      with ex Next show ?thesis by simp
    qed
    with fr notNext show ?thesis by (intro exI[of _ ?R1]) simp
  qed
qed

text \<open>
  Claim C3. For an intent with \<^verbatim>\<open>stopOnFailure\<close> true whose steps have distinct
  identities, if the verification of a step fails, then \<^verbatim>\<open>execute\<close> does not report
  success, and every step declared after that step is assigned no status at all during
  the run: a step that was \<^verbatim>\<open>pending\<close> when the run started is \<^verbatim>\<open>pending\<close> when it ends (not
  \<^verbatim>\<open>skipped\<close>, even when it depends on the failed step).
\<close>

theorem first_failing_step_halts_execution:
  assumes stop: "stopOnFailure (options I) = Some True"
    and order: "stepOrder I = pre @ sid # post" and dist: "distinct (stepOrder I)"
    and fails: "VerifyRan sid False \<in> set (ran (final (execute h I w)))"
    and later: "t \<in> set post"
    and pending: "map_option step_status (map_of (steps I) t) = Some Pending"
  shows "assigned t (history (final (execute h I w))) = []
       \<and> map_option step_status (map_of (this_steps (final (execute h I w))) t) = Some Pending
       \<and> map_option res_success (returned (execute h I w)) \<noteq> Some True"
proof -
  from order dist have post: "sid \<notin> set post" and tpre: "t \<notin> set (pre @ [sid])"
    and dpre: "distinct (pre @ [sid])"
    using later by auto
  from halts_at_failing_step[OF stop order post fails] obtain r1 where
    r1: "history r1 = []" "this_steps r1 = steps I"
      "\<not> (\<exists>r2. execute_steps h I (pre @ [sid]) r1 = Next r2)"
      "execute h I w = execute_steps h I (pre @ [sid]) r1"
    by blast
  from execute_steps_visits[OF dpre, of r1 h I] r1(1) obtain hs where
    hs: "history (final (execute_steps h I (pre @ [sid]) r1)) = hs" "fst ` set hs \<subseteq> set (pre @ [sid])"
    unfolding visits_def by auto
  with tpre have "t \<notin> fst ` set hs" by blast
  then have a: "assigned t (history (final (execute h I w))) = []"
    using hs(1) r1(4) by (simp add: assigned_empty)
  have "tracked (steps I) (this_steps (final (execute h I w))) (history (final (execute h I w)))"
    by (rule execute_tracked)
  then have b: "map_option step_status (map_of (this_steps (final (execute h I w))) t) = Some Pending"
    using a pending unfolding tracked_def by (cases "map_of (steps I) t") auto
  have "verdict_sound (ran r1) (execute_steps h I (pre @ [sid]) r1)"
    by (rule execute_steps_sound[OF stop])
  with r1(3,4) have c: "map_option res_success (returned (execute h I w)) \<noteq> Some True"
    by (cases "execute_steps h I (pre @ [sid]) r1") auto
  from a b c show ?thesis by simp
qed

theorem first_failing_step_halts_execution_witness:
  "stopOnFailure (options dependent_intent) = Some True
   \<and> stepOrder dependent_intent = [] @ ''s1'' # [''s2'']
   \<and> distinct (stepOrder dependent_intent)
   \<and> VerifyRan ''s1'' False \<in> set (ran (final (execute counting_host dependent_intent 0)))
   \<and> ''s2'' \<in> set [''s2'']
   \<and> map_option dependencies (map_of (steps dependent_intent) ''s2'') = Some (Some [''s1''])
   \<and> map_option step_status (map_of (steps dependent_intent) ''s2'') = Some Pending
   \<and> assigned ''s2'' (history (final (execute counting_host dependent_intent 0))) = []
   \<and> map_option step_status (map_of (this_steps (final (execute counting_host dependent_intent 0))) ''s2'')
       = Some Pending
   \<and> map_option res_success (returned (execute counting_host dependent_intent 0)) \<noteq> Some True"
proof -
  have a: "stopOnFailure (options dependent_intent) = Some True"
    and b: "stepOrder dependent_intent = [] @ ''s1'' # [''s2'']"
    and c: "distinct (stepOrder dependent_intent)"
    and d: "map_option dependencies (map_of (steps dependent_intent) ''s2'') = Some (Some [''s1''])"
    and e: "map_option step_status (map_of (steps dependent_intent) ''s2'') = Some Pending"
    by (simp_all add: dependent_intent_def builder_defs)
  have f: "VerifyRan ''s1'' False \<in> set (ran (final (execute counting_host dependent_intent 0)))"
    by (simp add: dependent_intent_def builder_defs engine_defs)
  have g: "''s2'' \<in> set [''s2'']" by simp
  from first_failing_step_halts_execution[OF a b c f g e] a b c d e f
  show ?thesis by simp
qed

end
